theory Spec2Isabelle
  imports Main "HOL-Library.AList" "HOL-Library.Char_ord" "HOL-Library.List_Lexorder"
begin

section \<open>Values, errors and ordered dictionaries\<close>

text \<open>
  The scalar values that the YAML metadata and the R output files carry. Values are stored
  and compared, never computed with; a float is kept as its \<^verbatim>\<open>repr\<close>, and is taken to differ
  from every integer (an \<^verbatim>\<open>exec\<close> is a program name, so Python's \<^verbatim>\<open>1 == 1.0\<close> between
  dictionary keys plays no role).
\<close>

datatype yval = YStr string | YInt int | YFloat string | YNone

text \<open>
  Every exception the modelled code can raise. \<open>ResultDBError\<close> is the class of the
  source; the others are Python's built-in exceptions. \<open>LoadError\<close> stands for a failure of
  the external reader of output files.
\<close>

datatype error =
    ResultDBError string
  | KeyError yval
  | IndexError
  | TypeError
  | ValueError
  | AttributeError
  | RecursionError
  | LoadError

text \<open>
  A Python dictionary is an association list with distinct keys, in insertion order:
  \<open>map_of\<close> reads it, \<open>AList.update\<close> is \<^verbatim>\<open>d[k] = v\<close> (the position of an existing key
  is kept, a new key goes last) and \<open>AList.delete\<close> is \<^verbatim>\<open>del d[k]\<close>.
\<close>

definition od_update :: "('k \<times> 'v) list \<Rightarrow> ('k \<times> 'v) list \<Rightarrow> ('k \<times> 'v) list" where
  "od_update d other = fold (\<lambda>(k, v). AList.update k v) other d"

definition od_of :: "('k \<times> 'v) list \<Rightarrow> ('k \<times> 'v) list" where
  "od_of items = od_update [] items"

text \<open>\<^verbatim>\<open>xs.index(x)\<close>; \<open>None\<close> is Python's \<^verbatim>\<open>ValueError\<close>.\<close>

fun list_index :: "'a list \<Rightarrow> 'a \<Rightarrow> nat option" where
  "list_index [] x = None"
| "list_index (y # ys) x = (if y = x then Some 0 else map_option Suc (list_index ys x))"

text \<open>A loop body that may raise, run over a list: the first exception ends the loop.\<close>

fun mapM :: "('a \<Rightarrow> error + 'b) \<Rightarrow> 'a list \<Rightarrow> error + 'b list" where
  "mapM f [] = Inr []"
| "mapM f (x # xs) =
     (case f x of
        Inl e \<Rightarrow> Inl e
      | Inr y \<Rightarrow> (case mapM f xs of Inl e \<Rightarrow> Inl e | Inr ys \<Rightarrow> Inr (y # ys)))"

text \<open>A pandas data frame with the default index: column labels and rows of cells.\<close>

record dataframe =
  columns :: "string list"
  rows :: "yval list list"

text \<open>
  The record store of one table (\<^verbatim>\<open>self.data[table]\<close>): the three columns every table has,
  and the attribute columns in first-seen order. The source keeps all of them in one
  dictionary; an attribute can never be called \<^verbatim>\<open>step_id\<close>, \<^verbatim>\<open>return\<close> or \<^verbatim>\<open>depends\<close>, because
  such keys are renamed (with a leading dot) before a column is made for them.
\<close>

record table =
  step_id :: "nat list"
  return :: "string list"
  depends :: "nat option list"
  attrs :: "(string \<times> yval list) list"

record resultdb =
  name :: string
  data :: "(yval \<times> table) list"
  master :: "(string \<times> dataframe) list"
  last_block :: "string list"
  groups :: "(string \<times> yval list) list"

definition ResultDB :: "string \<Rightarrow> resultdb" where
  "ResultDB db_name = \<lparr>name = db_name, data = [], master = [], last_block = [], groups = []\<rparr>"

section \<open>Strings\<close>

text \<open>\<^verbatim>\<open>s.split(c)\<close> and \<^verbatim>\<open>c.join(parts)\<close> for a one-character separator.\<close>

fun split_on :: "char \<Rightarrow> string \<Rightarrow> string list" where
  "split_on c [] = [[]]"
| "split_on c (x # xs) =
     (if x = c then [] # split_on c xs
      else (case split_on c xs of p # ps \<Rightarrow> (x # p) # ps | [] \<Rightarrow> [[x]]))"

fun join_on :: "char \<Rightarrow> string list \<Rightarrow> string" where
  "join_on c [] = []"
| "join_on c [p] = p"
| "join_on c (p # q # ps) = p @ c # join_on c (q # ps)"

text \<open>\<^verbatim>\<open>str(n)\<close> for a non-negative integer, and \<^verbatim>\<open>str\<close> of a list of them.\<close>

fun str_nat :: "nat \<Rightarrow> string" where
  "str_nat n =
     (if n < 10 then [char_of (48 + n)] else str_nat (n div 10) @ [char_of (48 + n mod 10)])"

fun join_comma :: "string list \<Rightarrow> string" where
  "join_comma [] = []"
| "join_comma [p] = p"
| "join_comma (p # q # ps) = p @ '', '' @ join_comma (q # ps)"

definition str_yval :: "yval \<Rightarrow> string" where
  "str_yval y =
     (case y of
        YStr s \<Rightarrow> s
      | YInt i \<Rightarrow> (if i < 0 then ''-'' @ str_nat (nat (- i)) else str_nat (nat i))
      | YFloat r \<Rightarrow> r
      | YNone \<Rightarrow> ''None'')"

definition str_nat_list :: "nat list \<Rightarrow> string" where
  "str_nat_list ns = ''['' @ join_comma (map str_nat ns) @ '']''"

text \<open>
  \<^verbatim>\<open>repr\<close> of a list of strings, without the escapes Python adds for quotes and
  non-printable characters. It is only ever interpolated into a message.
\<close>

definition repr_keys :: "string list \<Rightarrow> string" where
  "repr_keys ks = ''['' @ join_comma (map (\<lambda>s. [CHR 0x27] @ s @ [CHR 0x27]) ks) @ '']''"

text \<open>
  \<^verbatim>\<open>fmt.format(*args)\<close> restricted to what it does with numbered replacement fields: each
  field \<^verbatim>\<open>{i}\<close> takes \<^verbatim>\<open>args[i]\<close>, and an index past the arguments raises \<^verbatim>\<open>IndexError\<close>.
\<close>

definition format_fields :: "nat list \<Rightarrow> string list \<Rightarrow> error + string list" where
  "format_fields idxs args =
     (if list_all (\<lambda>i. i < length args) idxs then Inr (map (\<lambda>i. args ! i) idxs)
      else Inl IndexError)"

section \<open>Ingestion: \<^verbatim>\<open>ResultDB.load_parameters\<close>\<close>

type_synonym vdict = "(string \<times> yval) list"
type_synonym raw_file = "(string \<times> (string \<times> yval) list) list"

text \<open>
  Modelled from the spec: \<^verbatim>\<open>ordered_load\<close> of \<^verbatim>\<open>utils\<close> is not among the sources. It reads
  one YAML file into an ordered dictionary from composite key to the step's dictionary;
  a file is given here as the list of its entries in file order.
\<close>

definition ordered_load :: "raw_file \<Rightarrow> (string \<times> vdict) list" where
  "ordered_load f = od_of (map (\<lambda>(k, kv). (k, od_of kv)) f)"

text \<open>
  Lines 45-47: every file the glob finds is loaded and merged into \<^verbatim>\<open>data\<close>. The files
  are the ones the glob has just listed, so the \<^verbatim>\<open>FileNotFoundError\<close> of lines 48-49 needs a
  file that disappears in between; the list of files given here is the list of files read.
\<close>

definition load_data :: "raw_file list \<Rightarrow> (string \<times> vdict) list" where
  "load_data files = fold (\<lambda>f d. od_update d (ordered_load f)) files []"

text \<open>Line 52: the key without its first component.\<close>

definition key_suffix :: "string \<Rightarrow> string" where
  "key_suffix k = join_on CHR ''_'' (tl (split_on CHR ''_'' k))"

text \<open>Lines 50-56: entries whose suffix was seen before are deleted.\<close>

fun dedup :: "string list \<Rightarrow> (string \<times> 'v) list \<Rightarrow> (string \<times> 'v) list" where
  "dedup seen [] = []"
| "dedup seen ((k, v) # kvs) =
     (let k1 = key_suffix k in
      if k1 \<notin> set seen then (k, v) # dedup (seen @ [k1]) kvs else dedup seen kvs)"

text \<open>
  Lines 34-42. The scan runs over all keys of \<^verbatim>\<open>data\<close>, from the first one; \<open>ii\<close> is the
  position of the key under inspection. A key with no underscore has no component 1.
\<close>

fun search_dependent_index :: "string list \<Rightarrow> nat \<Rightarrow> string \<Rightarrow> error + nat" where
  "search_dependent_index [] ii x =
     Inl (ResultDBError (''Cannot find dependency step for output ``'' @ x @ ''``!''))"
| "search_dependent_index (kk # kks) ii x =
     (case split_on CHR ''_'' kk of
        _ # r # _ \<Rightarrow> if r = x then Inr (ii + 1) else search_dependent_index kks (ii + 1) x
      | _ \<Rightarrow> Inl IndexError)"

definition bookkeeping :: "string list" where
  "bookkeeping = [''sequence_id'', ''sequence_name'', ''step_name'', ''exec'']"

text \<open>Lines 62-65.\<close>

definition update_groups :: "string \<Rightarrow> yval \<Rightarrow> (string \<times> yval list) list \<Rightarrow> (string \<times> yval list) list" where
  "update_groups block_name tbl grps =
     (let grps1 = (if block_name \<notin> set (map fst grps) then AList.update block_name [] grps else grps)
      in case map_of grps1 block_name of
           None \<Rightarrow> grps1
         | Some ts \<Rightarrow> if tbl \<notin> set ts then AList.update block_name (ts @ [tbl]) grps1 else grps1)"

text \<open>
  Lines 66-67. The right operand of \<^verbatim>\<open>and\<close> is evaluated only for a block that is not
  yet in \<^verbatim>\<open>last_block\<close>; \<^verbatim>\<open>.split\<close> exists on strings only.
\<close>

definition update_last_block :: "string \<Rightarrow> string \<Rightarrow> vdict \<Rightarrow> string list \<Rightarrow> error + string list" where
  "update_last_block block_name step_name v lb =
     (if block_name \<in> set lb then Inr lb
      else (case map_of v ''sequence_name'' of
              None \<Rightarrow> Inl (KeyError (YStr ''sequence_name''))
            | Some (YStr sequence_name) \<Rightarrow>
                if step_name = last (split_on CHR ''+'' sequence_name)
                then Inr (lb @ [block_name]) else Inr lb
            | Some _ \<Rightarrow> Inl AttributeError))"

text \<open>Lines 69-71: \<^verbatim>\<open>v['.x'] = v.pop(x)\<close>.\<close>

definition rename_key :: "string \<Rightarrow> vdict \<Rightarrow> vdict" where
  "rename_key x v =
     (case map_of v x of
        None \<Rightarrow> v
      | Some y \<Rightarrow> AList.update (''.'' @ x) y (AList.delete x v))"

definition rename_keys :: "vdict \<Rightarrow> vdict" where
  "rename_keys v = fold rename_key [''step_id'', ''return'', ''depends''] v"

text \<open>Lines 74-77: the columns of a table seen for the first time.\<close>

definition new_table :: "vdict \<Rightarrow> table" where
  "new_table v =
     \<lparr>step_id = [], return = [], depends = [],
      attrs = od_of (map (\<lambda>x. (x, [])) (filter (\<lambda>x. x \<notin> set bookkeeping) (map fst v)))\<rparr>"

text \<open>
  Lines 79-82. The source compares the \<^verbatim>\<open>repr\<close> of the two sorted lists; \<^verbatim>\<open>repr\<close> is
  injective on lists of strings, so the lists themselves are compared here.
\<close>

definition keys1 :: "vdict \<Rightarrow> string list" where
  "keys1 v = sort (filter (\<lambda>x. x \<notin> set bookkeeping) (map fst v))"

definition keys2 :: "table \<Rightarrow> string list" where
  "keys2 tb = sort (map fst (attrs tb))"

text \<open>
  Lines 84-86: the exception that the \<^verbatim>\<open>raise\<close> statement ends with. The format string
  names the fields 1, 3, 2 and 4, and \<^verbatim>\<open>format\<close> is given four arguments.
\<close>

definition inconsistent_keys :: "nat \<Rightarrow> vdict \<Rightarrow> table \<Rightarrow> error" where
  "inconsistent_keys idx v tb =
     (case format_fields [1, 3, 2, 4]
             [str_nat (idx + 1), repr_keys (keys1 v), str_nat_list (step_id tb),
              repr_keys (keys2 tb)] of
        Inl e \<Rightarrow> e
      | Inr fs \<Rightarrow>
          ResultDBError (''Inconsistent keys between step ``'' @ fs ! 0 @ '' (value '' @ fs ! 1
            @ '')`` and ``'' @ fs ! 2 @ '' (value '' @ fs ! 3 @ '')``.''))"

text \<open>
  Lines 60-86: the meta information of one entry, and the table it goes to. A split never
  yields the empty list (\<open>split_on_nonempty\<close> below), so \<open>hd\<close> and \<open>last\<close> of a split are its
  components 0 and -1.
\<close>

definition collect_meta ::
  "nat \<Rightarrow> vdict \<Rightarrow> resultdb \<Rightarrow> error + (yval \<times> vdict \<times> table \<times> resultdb)" where
  "collect_meta idx v0 self =
     (case map_of v0 ''exec'' of
        None \<Rightarrow> Inl (KeyError (YStr ''exec''))
      | Some tbl \<Rightarrow>
         (case map_of v0 ''step_name'' of
            None \<Rightarrow> Inl (KeyError (YStr ''step_name''))
          | Some (YStr step_name) \<Rightarrow>
              (let block_name = hd (split_on CHR ''_'' step_name);
                   self1 = self\<lparr>groups := update_groups block_name tbl (groups self)\<rparr>
               in case update_last_block block_name step_name v0 (last_block self1) of
                    Inl e \<Rightarrow> Inl e
                  | Inr lb \<Rightarrow>
                      (let self2 = self1\<lparr>last_block := lb\<rparr>;
                           v = rename_keys v0
                       in case map_of (data self2) tbl of
                            None \<Rightarrow> Inr (tbl, v, new_table v, self2)
                          | Some tb \<Rightarrow>
                              if keys1 v \<noteq> keys2 tb then Inl (inconsistent_keys idx v tb)
                              else Inr (tbl, v, tb, self2)))
          | Some _ \<Rightarrow> Inl AttributeError))"

text \<open>Lines 94-96: one value is appended to the column of every key of the entry.\<close>

fun append_attrs :: "vdict \<Rightarrow> (string \<times> yval list) list \<Rightarrow> error + (string \<times> yval list) list" where
  "append_attrs [] cols = Inr cols"
| "append_attrs ((k1, v1) # rest) cols =
     (if k1 \<in> set bookkeeping then append_attrs rest cols
      else (case map_of cols k1 of
              None \<Rightarrow> Inl (KeyError (YStr k1))
            | Some col \<Rightarrow> append_attrs rest (AList.update k1 (col @ [v1]) cols)))"

text \<open>Lines 87-96: the entry becomes the last row of its table.\<close>

definition append_record ::
  "string list \<Rightarrow> nat \<Rightarrow> string \<Rightarrow> yval \<times> vdict \<times> table \<times> resultdb \<Rightarrow> error + resultdb" where
  "append_record ks idx k m =
     (case m of (tbl, v, tb, self) \<Rightarrow>
        (let parts = split_on CHR ''_'' k
         in case parts of
              _ # r # _ \<Rightarrow>
                (case (if length parts > 2
                       then (case search_dependent_index ks 0 (last parts) of
                               Inl e \<Rightarrow> Inl e
                             | Inr n \<Rightarrow> Inr (Some n))
                       else Inr None) of
                   Inl e \<Rightarrow> Inl e
                 | Inr dep \<Rightarrow>
                     (case append_attrs v (attrs tb) of
                        Inl e \<Rightarrow> Inl e
                      | Inr a \<Rightarrow>
                          Inr (self\<lparr>data :=
                                 AList.update tbl
                                   \<lparr>step_id = step_id tb @ [idx + 1], return = return tb @ [r],
                                    depends = depends tb @ [dep], attrs = a\<rparr>
                                   (data self)\<rparr>)))
            | _ \<Rightarrow> Inl IndexError))"

definition ingest_record :: "string list \<Rightarrow> nat \<Rightarrow> string \<times> vdict \<Rightarrow> resultdb \<Rightarrow> error + resultdb" where
  "ingest_record ks idx kv self =
     (case collect_meta idx (snd kv) self of
        Inl e \<Rightarrow> Inl e
      | Inr m \<Rightarrow> append_record ks idx (fst kv) m)"

text \<open>Line 57: the loop over the entries that are left, \<open>idx\<close> counting from 0.\<close>

fun ingest_loop :: "string list \<Rightarrow> nat \<Rightarrow> (string \<times> vdict) list \<Rightarrow> resultdb \<Rightarrow> error + resultdb" where
  "ingest_loop ks idx [] self = Inr self"
| "ingest_loop ks idx (kv # rest) self =
     (case ingest_record ks idx kv self of
        Inl e \<Rightarrow> Inl e
      | Inr self' \<Rightarrow> ingest_loop ks (idx + 1) rest self')"

definition load_parameters :: "raw_file list \<Rightarrow> resultdb \<Rightarrow> error + resultdb" where
  "load_parameters files self =
     (let d = dedup [] (load_data files) in ingest_loop (map fst d) 0 d self)"

section \<open>Chain resolution: \<^verbatim>\<open>ResultDB.__get_sequence\<close>\<close>

text \<open>Lines 98-102.\<close>

fun find_block :: "(string \<times> yval list) list \<Rightarrow> yval \<Rightarrow> error + string" where
  "find_block [] step =
     Inl (ResultDBError (''Cannot find ``'' @ str_yval step @ ''`` in any blocks!''))"
| "find_block ((k, ts) # rest) step = (if step \<in> set ts then Inr k else find_block rest step)"

text \<open>Lines 113-118: the first table, in the order of \<^verbatim>\<open>self.data\<close>, that has the step id.\<close>

fun find_step :: "(yval \<times> table) list \<Rightarrow> nat \<Rightarrow> (yval \<times> nat) option" where
  "find_step [] depend_id = None"
| "find_step ((k, tb) # rest) depend_id =
     (case list_index (step_id tb) depend_id of
        Some idx \<Rightarrow> Some (k, idx)
      | None \<Rightarrow> find_step rest depend_id)"

text \<open>
  Lines 104-121. The first argument is the number of nested calls that Python's recursion
  limit still allows; the call that would exceed it raises \<^verbatim>\<open>RecursionError\<close>. The list
  \<open>res\<close> is the accumulator the source appends to. Line 119 also raises when the table
  found is named \<^verbatim>\<open>None\<close>.
\<close>

fun get_sequence ::
  "nat \<Rightarrow> resultdb \<Rightarrow> yval \<Rightarrow> nat \<Rightarrow> nat \<Rightarrow> (yval \<times> nat) list \<Rightarrow> error + (yval \<times> nat) list" where
  "get_sequence 0 self step sid step_idx res = Inl RecursionError"
| "get_sequence (Suc limit) self step sid step_idx res =
     (let res1 = res @ [(step, sid)]
      in case map_of (data self) step of
           None \<Rightarrow> Inl (KeyError step)
         | Some tb \<Rightarrow>
             if step_idx \<ge> length (depends tb) then Inl IndexError
             else (case depends tb ! step_idx of
                     None \<Rightarrow> Inr res1
                   | Some depend_id \<Rightarrow>
                       (case find_step (data self) depend_id of
                          None \<Rightarrow>
                            Inl (ResultDBError (''Cannot find step_id ``'' @ str_nat depend_id
                                   @ ''`` in any tables!''))
                        | Some (step', idx) \<Rightarrow>
                            if step' = YNone
                            then Inl (ResultDBError (''Cannot find step_id ``'' @ str_nat depend_id
                                   @ ''`` in any tables!''))
                            else get_sequence limit self step' depend_id idx res1)))"

section \<open>The pandas operations the source calls\<close>

text \<open>
  pandas is a library, not part of the sources; the three operations below follow its
  documentation for the arguments the source passes. \<open>YNone\<close> is the missing value.

  \<^verbatim>\<open>pd.DataFrame(rows, columns = header)\<close> for a list of rows: short rows are padded with
  missing values, and a width other than the header's is a \<^verbatim>\<open>ValueError\<close>.
\<close>

definition DataFrame :: "yval list list \<Rightarrow> string list \<Rightarrow> error + dataframe" where
  "DataFrame rws header =
     (if rws = [] then Inr \<lparr>columns = header, rows = []\<rparr>
      else (let w = fold max (map length rws) 0
            in if w \<noteq> length header then Inl ValueError
               else Inr \<lparr>columns = header,
                         rows = map (\<lambda>r. r @ replicate (w - length r) YNone) rws\<rparr>))"

text \<open>
  \<^verbatim>\<open>pd.concat(frames, axis = 1)\<close> for frames with the default index: the labels are put side
  by side, there are as many rows as the longest frame has, and a shorter frame is filled
  with missing values.
\<close>

definition row_or_null :: "dataframe \<Rightarrow> nat \<Rightarrow> yval list" where
  "row_or_null f i =
     (if i < length (rows f) then rows f ! i else replicate (length (columns f)) YNone)"

definition pd_concat :: "dataframe list \<Rightarrow> error + dataframe" where
  "pd_concat frames =
     (if frames = [] then Inl ValueError
      else Inr \<lparr>columns = concat (map columns frames),
                rows = map (\<lambda>i. concat (map (\<lambda>f. row_or_null f i) frames))
                         [0 ..< fold max (map (\<lambda>f. length (rows f)) frames) 0]\<rparr>)"

text \<open>
  \<^verbatim>\<open>pd.merge(left, right, on = key, how = 'outer')\<close> for one key label: the label must be a
  column of both frames, once. The result has one group of rows per key value of either
  frame, the groups sorted by key; within a group every left row is paired with every
  right row, and a side without the key contributes missing values. The labels that both
  sides carry besides the key get the suffixes \<^verbatim>\<open>_x\<close> and \<^verbatim>\<open>_y\<close>. The keys that reach the merge
  from \<^verbatim>\<open>cbind_output\<close> are step ids, so the sort is by integer value.
\<close>

definition cell :: "yval list \<Rightarrow> nat \<Rightarrow> yval" where
  "cell r j = (if j < length r then r ! j else YNone)"

definition drop_nth :: "nat \<Rightarrow> 'a list \<Rightarrow> 'a list" where
  "drop_nth j xs = take j xs @ drop (Suc j) xs"

definition key_int :: "yval \<Rightarrow> int" where
  "key_int y = (case y of YInt i \<Rightarrow> i | _ \<Rightarrow> 0)"

definition merge_group ::
  "nat \<Rightarrow> nat \<Rightarrow> nat \<Rightarrow> nat \<Rightarrow> yval list list \<Rightarrow> yval list list \<Rightarrow> yval \<Rightarrow> yval list list" where
  "merge_group jl jr nl nr lrows rrows k =
     (let ls = filter (\<lambda>r. cell r jl = k) lrows;
          rs = filter (\<lambda>r. cell r jr = k) rrows
      in if rs = [] then map (\<lambda>l. l @ replicate (nr - 1) YNone) ls
         else if ls = [] then map (\<lambda>r. (replicate nl YNone)[jl := k] @ drop_nth jr r) rs
         else concat (map (\<lambda>l. map (\<lambda>r. l @ drop_nth jr r) rs) ls))"

definition pd_merge :: "dataframe \<Rightarrow> dataframe \<Rightarrow> string \<Rightarrow> error + dataframe" where
  "pd_merge left right key =
     (if count_list (columns left) key = 0 \<or> count_list (columns right) key = 0
      then Inl (KeyError (YStr key))
      else if count_list (columns left) key > 1 \<or> count_list (columns right) key > 1
      then Inl ValueError
      else (case (list_index (columns left) key, list_index (columns right) key) of
              (Some jl, Some jr) \<Rightarrow>
                (let rcols = drop_nth jr (columns right);
                     ks = sort_key key_int
                            (remdups (map (\<lambda>r. cell r jl) (rows left)
                                      @ map (\<lambda>r. cell r jr) (rows right)))
                 in Inr \<lparr>columns =
                           map (\<lambda>c. if c \<noteq> key \<and> c \<in> set rcols then c @ ''_x'' else c)
                             (columns left)
                           @ map (\<lambda>c. if c \<in> set (columns left) then c @ ''_y'' else c) rcols,
                         rows =
                           concat (map (merge_group jl jr (length (columns left))
                                          (length (columns right)) (rows left) (rows right)) ks)\<rparr>)
            | _ \<Rightarrow> Inl (KeyError (YStr key))))"

section \<open>Master tables: \<^verbatim>\<open>ResultDB.write_master_table\<close>\<close>

text \<open>
  Modelled from the spec: \<^verbatim>\<open>flatten_list\<close> of \<^verbatim>\<open>utils\<close> is not among the sources. It is
  applied to a list of pairs and yields their components in order: the header
  \<^verbatim>\<open>[<block>_name, <block>_id]\<close> per block, and the table name and step id per chain position.
\<close>

definition header_of :: "string list \<Rightarrow> string list" where
  "header_of key = concat (map (\<lambda>x. [x @ ''_name'', x @ ''_id'']) key)"

definition flatten_item :: "(yval \<times> nat) list \<Rightarrow> yval list" where
  "flatten_item item = concat (map (\<lambda>x. [fst x, YInt (int (snd x))]) item)"

text \<open>Lines 135-139 for one table, and lines 134-139.\<close>

definition table_chains :: "nat \<Rightarrow> resultdb \<Rightarrow> yval \<Rightarrow> error + (yval \<times> nat) list list" where
  "table_chains limit self step =
     (case map_of (data self) step of
        None \<Rightarrow> Inl (KeyError step)
      | Some tb \<Rightarrow>
          mapM (\<lambda>(step_idx, sid).
                  case get_sequence limit self step sid step_idx [] of
                    Inl e \<Rightarrow> Inl e
                  | Inr tmp \<Rightarrow> Inr (rev tmp))
               (enumerate 0 (step_id tb)))"

definition block_chains :: "nat \<Rightarrow> resultdb \<Rightarrow> string \<Rightarrow> error + (yval \<times> nat) list list" where
  "block_chains limit self block =
     (case map_of (groups self) block of
        None \<Rightarrow> Inl (KeyError (YStr block))
      | Some steps \<Rightarrow>
          (case mapM (table_chains limit self) steps of
             Inl e \<Rightarrow> Inl e
           | Inr rs \<Rightarrow> Inr (concat rs)))"

text \<open>Line 142: the shape of a chain.\<close>

definition shape_of :: "(string \<times> yval list) list \<Rightarrow> (yval \<times> nat) list \<Rightarrow> error + string list" where
  "shape_of grps item = mapM (\<lambda>x. find_block grps (fst x)) item"

text \<open>
  Lines 141-145. The list that the source keeps per key starts with the header; here the
  header and the rows that follow it are the two components of a pair.
\<close>

fun group_chains ::
  "(string \<times> yval list) list \<Rightarrow> (yval \<times> nat) list list \<Rightarrow>
   (string list \<times> string list \<times> yval list list) list \<Rightarrow>
   error + (string list \<times> string list \<times> yval list list) list" where
  "group_chains grps [] d = Inr d"
| "group_chains grps (item # rest) d =
     (case shape_of grps item of
        Inl e \<Rightarrow> Inl e
      | Inr key \<Rightarrow>
          (case map_of d key of
             None \<Rightarrow>
               group_chains grps rest (AList.update key (header_of key, [flatten_item item]) d)
           | Some (header, rws) \<Rightarrow>
               group_chains grps rest (AList.update key (header, rws @ [flatten_item item]) d)))"

text \<open>Lines 124-149.\<close>

definition write_master_table :: "nat \<Rightarrow> resultdb \<Rightarrow> string \<Rightarrow> error + dataframe" where
  "write_master_table limit self block =
     (case block_chains limit self block of
        Inl e \<Rightarrow> Inl e
      | Inr res \<Rightarrow>
          (case group_chains (groups self) res [] of
             Inl e \<Rightarrow> Inl e
           | Inr d \<Rightarrow>
               (case mapM (\<lambda>(key, header, rws). DataFrame rws header) d of
                  Inl e \<Rightarrow> Inl e
                | Inr frames \<Rightarrow> pd_concat frames)))"

section \<open>Output enrichment: \<^verbatim>\<open>ResultDB.cbind_output\<close>\<close>

text \<open>
  Line 176: \<^verbatim>\<open>table[label]\<close>, iterated. A label that the frame has once gives the cells of
  its column; a label that it has several times gives a frame, and iterating a frame
  yields its labels.
\<close>

definition get_column :: "dataframe \<Rightarrow> string \<Rightarrow> error + yval list" where
  "get_column tbl c =
     (case list_index (columns tbl) c of
        None \<Rightarrow> Inl (KeyError (YStr c))
      | Some j \<Rightarrow>
          if count_list (columns tbl) c = 1 then Inr (map (\<lambda>r. cell r j) (rows tbl))
          else Inr (replicate (count_list (columns tbl) c) (YStr c)))"

text \<open>Lines 182-190: the columns and values that one output file contributes.\<close>

definition expand_value :: "string \<Rightarrow> yval list \<Rightarrow> string list \<times> yval list" where
  "expand_value k vs =
     (if length vs = 1 then ([k], [vs ! 0])
      else (map (\<lambda>i. k @ ''_'' @ str_nat (i + 1)) [0 ..< length vs], vs))"

definition output_columns :: "(string \<times> yval list) list \<Rightarrow> string list \<times> yval list" where
  "output_columns rdata =
     (let cs = map (\<lambda>k. case map_of rdata k of
                           Some vs \<Rightarrow> expand_value k vs
                         | None \<Rightarrow> ([], []))
                   (sort (map fst rdata))
      in (concat (map fst cs), concat (map snd cs)))"

text \<open>
  Lines 176-197: the loop over the rows of the master table. \<open>isfile\<close> is
  \<^verbatim>\<open>os.path.isfile\<close> and \<open>load_rds\<close> the reader of output files, both external. \<open>dat\<close> and
  \<open>colnames\<close> are the two variables the loop updates.
\<close>

fun enrich_rows ::
  "(string \<Rightarrow> bool) \<Rightarrow> (string \<Rightarrow> error + (string \<times> yval list) list) \<Rightarrow> resultdb \<Rightarrow>
   (yval \<times> yval) list \<Rightarrow> yval list list \<Rightarrow> string list option \<Rightarrow>
   error + (yval list list \<times> string list option)" where
  "enrich_rows isfile load_rds self [] dat colnames = Inr (dat, colnames)"
| "enrich_rows isfile load_rds self ((step, idx) # rest) dat colnames =
     (case map_of (data self) step of
        None \<Rightarrow> Inl (KeyError step)
      | Some tb \<Rightarrow>
          (case list_index (map (\<lambda>n. YInt (int n)) (step_id tb)) idx of
             None \<Rightarrow> Inl ValueError
           | Some p \<Rightarrow>
               if p \<ge> length (return tb) then Inl IndexError
               else (let rds = name self @ ''/'' @ return tb ! p @ ''.rds''
                     in if \<not> isfile rds then enrich_rows isfile load_rds self rest dat colnames
                        else (case load_rds rds of
                                Inl e \<Rightarrow> Inl e
                              | Inr rdata \<Rightarrow>
                                  (case output_columns rdata of (tmp_colnames, values) \<Rightarrow>
                                     (case colnames of
                                        None \<Rightarrow>
                                          enrich_rows isfile load_rds self rest
                                            (dat @ [idx # values]) (Some tmp_colnames)
                                      | Some cn \<Rightarrow>
                                          if cn \<noteq> tmp_colnames
                                          then Inl (ResultDBError (''Variables in ``'' @ rds
                                                 @ ''`` are not consistent with existing variables!''))
                                          else enrich_rows isfile load_rds self rest
                                                 (dat @ [idx # values]) colnames))))))"

text \<open>
  Lines 166-200. On line 199 the list of labels is \<^verbatim>\<open>['<name>_id'] + colnames\<close>, and
  \<^verbatim>\<open>colnames\<close> is still \<^verbatim>\<open>None\<close> when no row had an output file: adding \<^verbatim>\<open>None\<close> to a list
  is a \<^verbatim>\<open>TypeError\<close>.
\<close>

definition cbind_output ::
  "(string \<Rightarrow> bool) \<Rightarrow> (string \<Rightarrow> error + (string \<times> yval list) list) \<Rightarrow> resultdb \<Rightarrow>
   string \<Rightarrow> dataframe \<Rightarrow> error + dataframe" where
  "cbind_output isfile load_rds self block tbl =
     (case get_column tbl (block @ ''_name'') of
        Inl e \<Rightarrow> Inl e
      | Inr steps \<Rightarrow>
          (case get_column tbl (block @ ''_id'') of
             Inl e \<Rightarrow> Inl e
           | Inr ids \<Rightarrow>
               (case enrich_rows isfile load_rds self (zip steps ids) [] None of
                  Inl e \<Rightarrow> Inl e
                | Inr (dat, colnames) \<Rightarrow>
                    (case colnames of
                       None \<Rightarrow> Inl TypeError
                     | Some cn \<Rightarrow>
                         (case DataFrame dat ([block @ ''_id''] @ cn) of
                            Inl e \<Rightarrow> Inl e
                          | Inr right \<Rightarrow> pd_merge tbl right (block @ ''_id''))))))"

section \<open>The whole build: \<^verbatim>\<open>ResultDB.Build\<close>\<close>

text \<open>Lines 204-205.\<close>

fun write_masters :: "nat \<Rightarrow> resultdb \<Rightarrow> string list \<Rightarrow> error + resultdb" where
  "write_masters limit self [] = Inr self"
| "write_masters limit self (block # blocks) =
     (case write_master_table limit self block of
        Inl e \<Rightarrow> Inl e
      | Inr m \<Rightarrow>
          write_masters limit
            (self\<lparr>master := AList.update (''master_'' @ block) m (master self)\<rparr>) blocks)"

text \<open>\<^verbatim>\<open>item.split('_', 1)\<close>.\<close>

definition split_once :: "char \<Rightarrow> string \<Rightarrow> string list" where
  "split_once c s =
     (case dropWhile (\<lambda>x. x \<noteq> c) s of
        [] \<Rightarrow> [s]
      | _ # r \<Rightarrow> [takeWhile (\<lambda>x. x \<noteq> c) s, r])"

text \<open>Lines 206-207: every master table is replaced by its enrichment, in place.\<close>

definition cbind_masters ::
  "(string \<Rightarrow> bool) \<Rightarrow> (string \<Rightarrow> error + (string \<times> yval list) list) \<Rightarrow> resultdb \<Rightarrow>
   error + resultdb" where
  "cbind_masters isfile load_rds self =
     (case mapM (\<lambda>(item, m).
                   case split_once CHR ''_'' item of
                     [_, block] \<Rightarrow>
                       (case cbind_output isfile load_rds self block m of
                          Inl e \<Rightarrow> Inl e
                        | Inr m' \<Rightarrow> Inr (item, m'))
                   | _ \<Rightarrow> Inl IndexError)
                (master self) of
        Inl e \<Rightarrow> Inl e
      | Inr ms \<Rightarrow> Inr (self\<lparr>master := ms\<rparr>))"

text \<open>
  Lines 208-211: a table's dictionary of columns as a frame, the three fixed columns first.
  pandas refuses columns of different lengths with a \<^verbatim>\<open>ValueError\<close>.
\<close>

definition table_frame :: "table \<Rightarrow> error + dataframe" where
  "table_frame tb =
     (let n = length (step_id tb)
      in if length (depends tb) \<noteq> n \<or> length (return tb) \<noteq> n
            \<or> \<not> list_all (\<lambda>c. length (snd c) = n) (attrs tb)
         then Inl ValueError
         else Inr \<lparr>columns = [''step_id'', ''depends'', ''return'']
                     @ filter (\<lambda>x. x \<notin> set [''step_id'', ''depends'', ''return''])
                         (map fst (attrs tb)),
                   rows = map (\<lambda>i. [YInt (int (step_id tb ! i)),
                                      (case depends tb ! i of None \<Rightarrow> YNone
                                       | Some d \<Rightarrow> YInt (int d)),
                                      YStr (return tb ! i)]
                                     @ map (\<lambda>c. snd c ! i)
                                         (filter (\<lambda>c. fst c \<notin> set [''step_id'', ''depends'', ''return''])
                                            (attrs tb)))
                              [0 ..< n]\<rparr>)"

text \<open>
  Lines 202-213. The result is the dictionary that is handed to \<^verbatim>\<open>save_rds\<close>: the frame of
  every table, then the master tables under their names. An exception anywhere leaves no
  result.
\<close>

definition Build ::
  "nat \<Rightarrow> (string \<Rightarrow> bool) \<Rightarrow> (string \<Rightarrow> error + (string \<times> yval list) list) \<Rightarrow>
   raw_file list \<Rightarrow> resultdb \<Rightarrow> error + (yval \<times> dataframe) list" where
  "Build limit isfile load_rds files self =
     (case load_parameters files self of
        Inl e \<Rightarrow> Inl e
      | Inr self1 \<Rightarrow>
          (case write_masters limit self1 (last_block self1) of
             Inl e \<Rightarrow> Inl e
           | Inr self2 \<Rightarrow>
               (case cbind_masters isfile load_rds self2 of
                  Inl e \<Rightarrow> Inl e
                | Inr self3 \<Rightarrow>
                    (case mapM (\<lambda>(t, tb). case table_frame tb of
                                             Inl e \<Rightarrow> Inl e
                                           | Inr f \<Rightarrow> Inr (t, f))
                               (data self3) of
                       Inl e \<Rightarrow> Inl e
                     | Inr frames \<Rightarrow>
                         Inr (od_update frames
                                (map (\<lambda>(item, m). (YStr item, m)) (master self3)))))))"

section \<open>Predicates of the specification\<close>

text \<open>Every step dictionary of the input is a dictionary: its keys are distinct.\<close>

definition dict_values :: "(string \<times> vdict) list \<Rightarrow> bool" where
  "dict_values d \<longleftrightarrow> list_all (\<lambda>kv. distinct (map fst (snd kv))) d"

text \<open>All columns of a table have \<open>n\<close> elements.\<close>

definition parallel_columns :: "nat \<Rightarrow> table \<Rightarrow> bool" where
  "parallel_columns n tb \<longleftrightarrow>
     length (step_id tb) = n \<and> length (return tb) = n \<and> length (depends tb) = n
     \<and> list_all (\<lambda>c. length (snd c) = n) (attrs tb)"

text \<open>The number of entries that name the table \<open>t\<close> as their \<^verbatim>\<open>exec\<close>.\<close>

definition n_records :: "yval \<Rightarrow> (string \<times> vdict) list \<Rightarrow> nat" where
  "n_records t d = length (filter (\<lambda>kv. map_of (snd kv) ''exec'' = Some t) d)"

text \<open>Every table of the store has distinct attribute columns: it is a dictionary.\<close>

definition dict_tables :: "resultdb \<Rightarrow> bool" where
  "dict_tables s \<longleftrightarrow> list_all (\<lambda>p. distinct (map fst (attrs (snd p)))) (data s)"

text \<open>
  What lines 94-96 do to one column \<open>c\<close> of a table, for an entry \<open>v\<close>: the value of the
  entry under the column's key goes to the end of the column.
\<close>

definition appended :: "vdict \<Rightarrow> string \<times> yval list \<Rightarrow> string \<times> yval list" where
  "appended v c =
     (fst c, snd c @ (if fst c \<in> set bookkeeping then []
                      else (case map_of v (fst c) of None \<Rightarrow> [] | Some x \<Rightarrow> [x])))"

text \<open>The table \<open>tb'\<close> is \<open>tb\<close> with exactly one element more at the end of every column.\<close>

definition appends_one :: "table \<Rightarrow> table \<Rightarrow> bool" where
  "appends_one tb tb' \<longleftrightarrow>
     (\<exists>x. step_id tb' = step_id tb @ [x]) \<and> (\<exists>x. return tb' = return tb @ [x])
     \<and> (\<exists>x. depends tb' = depends tb @ [x])
     \<and> list_all2 (\<lambda>c c'. fst c' = fst c \<and> (\<exists>x. snd c' = snd c @ [x])) (attrs tb) (attrs tb')"

text \<open>The entries that are ingested, and their keys: \<^verbatim>\<open>data\<close> after line 56.\<close>

definition entries :: "raw_file list \<Rightarrow> (string \<times> vdict) list" where
  "entries files = dedup [] (load_data files)"

definition entry_keys :: "raw_file list \<Rightarrow> string list" where
  "entry_keys files = map fst (entries files)"

text \<open>
  The components of a composite key as lines 88-93 read them: the return id is component 1,
  and a key of more than two components refers to the output named by its last component.
\<close>

definition entry_return :: "string \<Rightarrow> string option" where
  "entry_return k = (case split_on CHR ''_'' k of _ # r # _ \<Rightarrow> Some r | _ \<Rightarrow> None)"

definition entry_depends :: "string \<Rightarrow> string option" where
  "entry_depends k =
     (let parts = split_on CHR ''_'' k in if length parts > 2 then Some (last parts) else None)"

text \<open>The value that lines 90-93 append to \<^verbatim>\<open>depends\<close> for the key \<open>k\<close>, when they succeed.\<close>

definition resolved_dep :: "string list \<Rightarrow> string \<Rightarrow> nat option \<Rightarrow> bool" where
  "resolved_dep ks k dep \<longleftrightarrow>
     (case entry_depends k of
        None \<Rightarrow> dep = None
      | Some x \<Rightarrow> (case search_dependent_index ks 0 x of Inl e \<Rightarrow> False | Inr n \<Rightarrow> dep = Some n))"

text \<open>The two exceptions for a reference that cannot be resolved (lines 41 and 120).\<close>

definition not_found_output :: "string \<Rightarrow> error" where
  "not_found_output x = ResultDBError (''Cannot find dependency step for output ``'' @ x @ ''``!'')"

definition not_found_step :: "nat \<Rightarrow> error" where
  "not_found_step d = ResultDBError (''Cannot find step_id ``'' @ str_nat d @ ''`` in any tables!'')"

text \<open>
  The row \<open>(sid, ret, dep)\<close> of a table is what the entry at position \<open>i\<close> contributes, and
  every row of the table \<open>tb\<close> is contributed by one of the first \<open>m\<close> entries.
\<close>

definition entry_row :: "string list \<Rightarrow> nat \<Rightarrow> nat \<Rightarrow> string \<Rightarrow> nat option \<Rightarrow> bool" where
  "entry_row ks i sid ret dep \<longleftrightarrow>
     sid = i + 1 \<and> entry_return (ks ! i) = Some ret \<and> resolved_dep ks (ks ! i) dep"

definition rows_from :: "string list \<Rightarrow> nat \<Rightarrow> table \<Rightarrow> bool" where
  "rows_from ks m tb \<longleftrightarrow>
     length (return tb) = length (step_id tb) \<and> length (depends tb) = length (step_id tb)
     \<and> (\<forall>p < length (step_id tb).
           \<exists>i < m. entry_row ks i (step_id tb ! p) (return tb ! p) (depends tb ! p))"

text \<open>
  Entry \<open>i\<close> is the first one with its key suffix, and the entries that deduplication by
  ``first wins'' keeps.
\<close>

definition first_of_suffix :: "(string \<times> 'v) list \<Rightarrow> nat \<Rightarrow> bool" where
  "first_of_suffix d i \<longleftrightarrow>
     list_all (\<lambda>j. key_suffix (fst (d ! j)) \<noteq> key_suffix (fst (d ! i))) [0 ..< i]"

definition first_wins :: "(string \<times> 'v) list \<Rightarrow> (string \<times> 'v) list" where
  "first_wins d = map (\<lambda>i. d ! i) (filter (first_of_suffix d) [0 ..< length d])"

text \<open>
  Every entry of \<open>extra\<close> has a key that \<open>d\<close> does not have, with a suffix that a key of
  \<open>d\<close> has.
\<close>

definition repeats_suffixes :: "(string \<times> 'v) list \<Rightarrow> (string \<times> 'v) list \<Rightarrow> bool" where
  "repeats_suffixes d extra \<longleftrightarrow>
     list_all (\<lambda>kv. fst kv \<notin> set (map fst d)
                    \<and> key_suffix (fst kv) \<in> set (map (\<lambda>p. key_suffix (fst p)) d)) extra"

text \<open>
  In every table the \<^verbatim>\<open>depends\<close> column is as long as the \<^verbatim>\<open>step_id\<close> column, and every
  dependency is smaller than the step id beside it.
\<close>

definition depends_decrease :: "resultdb \<Rightarrow> bool" where
  "depends_decrease self \<longleftrightarrow>
     list_all (\<lambda>p. length (depends (snd p)) = length (step_id (snd p))
                   \<and> list_all (\<lambda>r. case snd r of None \<Rightarrow> True | Some d \<Rightarrow> d < fst r)
                        (zip (step_id (snd p)) (depends (snd p))))
              (data self)"




text \<open>
  The keys of a dictionary that starts with the keys \<open>known\<close> and is then assigned to under
  the keys \<open>xs\<close>, one after the other: every key once, at its first place.
\<close>

definition insertion_order :: "'a list \<Rightarrow> 'a list \<Rightarrow> 'a list" where
  "insertion_order known xs = fold (\<lambda>k acc. if k \<in> set acc then acc else acc @ [k]) xs known"

text \<open>
  The chains that have the shape \<open>key\<close>, in their order, where \<open>shapes ! i\<close> is the shape
  of the chain \<open>res ! i\<close>.
\<close>

definition chains_of_shape ::
  "string list list \<Rightarrow> (yval \<times> nat) list list \<Rightarrow> string list \<Rightarrow> (yval \<times> nat) list list" where
  "chains_of_shape shapes res key =
     map (\<lambda>i. res ! i) (filter (\<lambda>i. shapes ! i = key) [0 ..< length res])"

text \<open>The rows and the table of the shape \<open>key\<close>, as lines 141-148 build them.\<close>

definition shape_group ::
  "string list list \<Rightarrow> (yval \<times> nat) list list \<Rightarrow> string list \<Rightarrow> yval list list" where
  "shape_group shapes res key =
     map (\<lambda>p. flatten_item (fst p)) (filter (\<lambda>p. snd p = key) (zip res shapes))"

definition group_frame ::
  "string list list \<Rightarrow> (yval \<times> nat) list list \<Rightarrow> string list \<Rightarrow> dataframe" where
  "group_frame shapes res key = \<lparr>columns = header_of key, rows = shape_group shapes res key\<rparr>"

text \<open>
  Lines 177-178: the output file of the step \<open>idx\<close> of table \<open>step\<close>, when the table and the
  step exist; and whether the step has an output file.
\<close>

definition output_file :: "resultdb \<Rightarrow> yval \<Rightarrow> yval \<Rightarrow> string option" where
  "output_file self step idx =
     (case map_of (data self) step of
        None \<Rightarrow> None
      | Some tb \<Rightarrow>
          (case list_index (map (\<lambda>n. YInt (int n)) (step_id tb)) idx of
             None \<Rightarrow> None
           | Some p \<Rightarrow>
               if p \<ge> length (return tb) then None
               else Some (name self @ ''/'' @ return tb ! p @ ''.rds'')))"

definition has_output :: "(string \<Rightarrow> bool) \<Rightarrow> resultdb \<Rightarrow> yval \<times> yval \<Rightarrow> bool" where
  "has_output isfile self x =
     (case output_file self (fst x) (snd x) of None \<Rightarrow> False | Some f \<Rightarrow> isfile f)"

text \<open>The steps of all the rows \<open>rws\<close> exist, and none of them has an output file.\<close>

definition no_outputs :: "(string \<Rightarrow> bool) \<Rightarrow> resultdb \<Rightarrow> (yval \<times> yval) list \<Rightarrow> bool" where
  "no_outputs isfile self rws \<longleftrightarrow>
     list_all (\<lambda>x. output_file self (fst x) (snd x) \<noteq> None \<and> \<not> has_output isfile self x) rws"

text \<open>The rows collected so far are as wide as the labels collected so far, plus the key.\<close>

definition rows_fit :: "yval list list \<Rightarrow> string list option \<Rightarrow> bool" where
  "rows_fit dat colnames \<longleftrightarrow>
     (case colnames of
        None \<Rightarrow> dat = []
      | Some cn \<Rightarrow> list_all (\<lambda>r. length r = Suc (length cn)) dat)"

text \<open>
  The raw blocks: the entries of all files in the order in which they are read, before
  anything is merged, each with its dictionary.
\<close>

definition raw_blocks :: "raw_file list \<Rightarrow> (string \<times> vdict) list" where
  "raw_blocks files = concat (map (map (\<lambda>(k, kv). (k, od_of kv))) files)"

text \<open>
  The block \<open>kv\<close> under its own key, with the content of the last block of \<open>raw\<close> that has
  the same whole key.
\<close>

definition with_last_content :: "(string \<times> 'v) list \<Rightarrow> string \<times> 'v \<Rightarrow> string \<times> 'v" where
  "with_last_content raw kv =
     (fst kv, case map_of (rev raw) (fst kv) of None \<Rightarrow> snd kv | Some v \<Rightarrow> v)"

text \<open>
  The walk of chain resolution over the rows of the store, a row being a table and an index
  into its columns: the row that the dependency of the row \<open>x\<close> leads to, when \<open>x\<close> has a
  dependency and lines 113-119 locate it; and the row reached from \<open>x\<close> by \<open>n\<close> such moves.
\<close>

definition next_row :: "resultdb \<Rightarrow> yval \<times> nat \<Rightarrow> (yval \<times> nat) option" where
  "next_row self x =
     (case map_of (data self) (fst x) of
        None \<Rightarrow> None
      | Some tb \<Rightarrow>
          if snd x \<ge> length (depends tb) then None
          else (case depends tb ! snd x of
                  None \<Rightarrow> None
                | Some d \<Rightarrow>
                    (case find_step (data self) d of
                       None \<Rightarrow> None
                     | Some y \<Rightarrow> if fst y = YNone then None else Some y)))"

fun row_after :: "nat \<Rightarrow> resultdb \<Rightarrow> yval \<times> nat \<Rightarrow> (yval \<times> nat) option" where
  "row_after 0 self x = Some x"
| "row_after (Suc n) self x =
     (case next_row self x of None \<Rightarrow> None | Some y \<Rightarrow> row_after n self y)"

text \<open>
  The step id \<open>d\<close> cannot be located: no table has a step \<open>d\<close>, or the first table that has
  one is named \<^verbatim>\<open>None\<close> (line 119 tests the index and the name).
\<close>

definition unlocated :: "resultdb \<Rightarrow> nat \<Rightarrow> bool" where
  "unlocated self d \<longleftrightarrow>
     (case dropWhile (\<lambda>p. d \<notin> set (step_id (snd p))) (data self) of
        [] \<Rightarrow> True
      | p # _ \<Rightarrow> fst p = YNone)"

text \<open>
  The row \<open>y\<close> has the dependency \<open>d\<close>, which cannot be located; and the walk from the row
  \<open>x\<close> is at such a row after \<open>n\<close> moves.
\<close>

definition dangling_row :: "resultdb \<Rightarrow> yval \<times> nat \<Rightarrow> nat \<Rightarrow> bool" where
  "dangling_row self y d \<longleftrightarrow>
     (case map_of (data self) (fst y) of
        None \<Rightarrow> False
      | Some tb \<Rightarrow>
          snd y < length (depends tb) \<and> depends tb ! snd y = Some d \<and> unlocated self d)"

definition meets_dangling :: "nat \<Rightarrow> resultdb \<Rightarrow> yval \<times> nat \<Rightarrow> nat \<Rightarrow> bool" where
  "meets_dangling n self x d \<longleftrightarrow>
     (case row_after n self x of None \<Rightarrow> False | Some y \<Rightarrow> dangling_row self y d)"

text \<open>
  The row \<open>x\<close> is one of those that lines 134-135 visit for the block; and the chains of all
  rows that they visit before \<open>x\<close> resolve: those of the tables before the table of \<open>x\<close> in
  the block, and those of the rows before \<open>x\<close> in its table.
\<close>

definition block_row :: "resultdb \<Rightarrow> string \<Rightarrow> yval \<times> nat \<Rightarrow> bool" where
  "block_row self block x \<longleftrightarrow>
     (case map_of (groups self) block of
        None \<Rightarrow> False
      | Some steps \<Rightarrow>
          fst x \<in> set steps
          \<and> (case map_of (data self) (fst x) of
                None \<Rightarrow> False
              | Some tb \<Rightarrow> snd x < length (step_id tb)))"

definition resolved_before :: "nat \<Rightarrow> resultdb \<Rightarrow> string \<Rightarrow> yval \<times> nat \<Rightarrow> bool" where
  "resolved_before limit self block x \<longleftrightarrow>
     (case map_of (groups self) block of
        None \<Rightarrow> False
      | Some steps \<Rightarrow>
          (case list_index steps (fst x) of
             None \<Rightarrow> False
           | Some a \<Rightarrow>
               list_all (\<lambda>t. \<not> isl (table_chains limit self t)) (take a steps)
               \<and> (case map_of (data self) (fst x) of
                     None \<Rightarrow> False
                   | Some tb \<Rightarrow>
                       list_all (\<lambda>p. \<not> isl (get_sequence limit self (fst x) (step_id tb ! p) p []))
                         [0 ..< snd x])))"

text \<open>The master tables of the blocks before \<open>block\<close> in \<^verbatim>\<open>last_block\<close> are written.\<close>

definition written_before :: "nat \<Rightarrow> resultdb \<Rightarrow> string \<Rightarrow> bool" where
  "written_before limit self block \<longleftrightarrow>
     (case list_index (last_block self) block of
        None \<Rightarrow> False
      | Some b \<Rightarrow> \<not> isl (write_masters limit self (take b (last_block self))))"

section \<open>Example inputs\<close>

text \<open>
  Two steps: table \<^verbatim>\<open>A\<close> in block \<^verbatim>\<open>simulate\<close>, and table \<^verbatim>\<open>B\<close> in the terminal block
  \<^verbatim>\<open>estimate\<close>, whose step depends on the output \<^verbatim>\<open>aaa\<close> of the first.
\<close>

definition step_A :: vdict where
  "step_A = [(''exec'', YStr ''A''), (''step_name'', YStr ''simulate_1''),
             (''sequence_name'', YStr ''simulate_1+estimate_1''), (''n'', YInt 100)]"

definition step_B :: vdict where
  "step_B = [(''exec'', YStr ''B''), (''step_name'', YStr ''estimate_1''),
             (''sequence_name'', YStr ''simulate_1+estimate_1''), (''m'', YInt 3)]"

definition example_files :: "raw_file list" where
  "example_files = [[(''1_aaa'', step_A), (''2_bbb_aaa'', step_B)]]"

text \<open>The store that ingesting them yields.\<close>

definition example_db :: resultdb where
  "example_db =
     \<lparr>name = ''db'',
      data = [(YStr ''A'', \<lparr>step_id = [1], return = [''aaa''], depends = [None],
                            attrs = [(''n'', [YInt 100])]\<rparr>),
              (YStr ''B'', \<lparr>step_id = [2], return = [''bbb''], depends = [Some 1],
                            attrs = [(''m'', [YInt 3])]\<rparr>)],
      master = [], last_block = [''estimate''],
      groups = [(''simulate'', [YStr ''A'']), (''estimate'', [YStr ''B''])]\<rparr>"

text \<open>
  A second step of table \<^verbatim>\<open>A\<close> whose attribute is called \<^verbatim>\<open>q\<close> where the first step of the
  table has \<^verbatim>\<open>n\<close>.
\<close>

definition step_A2 :: vdict where
  "step_A2 = [(''exec'', YStr ''A''), (''step_name'', YStr ''simulate_2''),
              (''sequence_name'', YStr ''simulate_2+estimate_1''), (''q'', YInt 5)]"

definition mismatch_files :: "raw_file list" where
  "mismatch_files = [[(''1_aaa'', step_A), (''2_ccc'', step_A2)]]"

text \<open>The outputs of the two example steps again, under other insertion numbers.\<close>

definition renumbered_files :: "raw_file list" where
  "renumbered_files = [[(''7_aaa'', step_A2), (''8_bbb_aaa'', step_B)]]"

text \<open>The second step refers to an output \<^verbatim>\<open>99\<close> that no step returns.\<close>

definition dangling_files :: "raw_file list" where
  "dangling_files = [[(''1_aaa'', step_A), (''2_bbb_99'', step_B)]]"

text \<open>A store whose step 2 depends on a step id that no table has.\<close>

definition dangling_db :: resultdb where
  "dangling_db =
     \<lparr>name = ''db'',
      data = [(YStr ''A'', \<lparr>step_id = [1], return = [''aaa''], depends = [None],
                            attrs = [(''n'', [YInt 100])]\<rparr>),
              (YStr ''B'', \<lparr>step_id = [2], return = [''bbb''], depends = [Some 99],
                            attrs = [(''m'', [YInt 3])]\<rparr>)],
      master = [], last_block = [''estimate''],
      groups = [(''simulate'', [YStr ''A'']), (''estimate'', [YStr ''B''])]\<rparr>"

text \<open>The first step refers to the output of the second, and what ingestion makes of it.\<close>

definition forward_files :: "raw_file list" where
  "forward_files = [[(''1_aaa_bbb'', step_A), (''2_bbb'', step_B)]]"

definition forward_db :: resultdb where
  "forward_db =
     \<lparr>name = ''db'',
      data = [(YStr ''A'', \<lparr>step_id = [1], return = [''aaa''], depends = [Some 2],
                            attrs = [(''n'', [YInt 100])]\<rparr>),
              (YStr ''B'', \<lparr>step_id = [2], return = [''bbb''], depends = [None],
                            attrs = [(''m'', [YInt 3])]\<rparr>)],
      master = [], last_block = [''estimate''],
      groups = [(''simulate'', [YStr ''A'']), (''estimate'', [YStr ''B''])]\<rparr>"

text \<open>A step whose key refers to its own output, and what ingestion makes of it.\<close>

definition cycle_files :: "raw_file list" where
  "cycle_files = [[(''1_aaa_aaa'', step_A)]]"

definition cycle_db :: resultdb where
  "cycle_db =
     \<lparr>name = ''db'',
      data = [(YStr ''A'', \<lparr>step_id = [1], return = [''aaa''], depends = [Some 1],
                            attrs = [(''n'', [YInt 100])]\<rparr>)],
      master = [], last_block = [], groups = [(''simulate'', [YStr ''A''])]\<rparr>"

text \<open>
  Three tables in three blocks. The steps 2 and 4 of table \<^verbatim>\<open>B\<close> end chains of two shapes:
  \<^verbatim>\<open>A, B\<close> and \<^verbatim>\<open>A, C, B\<close>.
\<close>

definition shapes_db :: resultdb where
  "shapes_db =
     \<lparr>name = ''db'',
      data = [(YStr ''A'', \<lparr>step_id = [1], return = [''aaa''], depends = [None],
                            attrs = [(''n'', [YInt 100])]\<rparr>),
              (YStr ''B'', \<lparr>step_id = [2, 4], return = [''bbb'', ''bb2''],
                            depends = [Some 1, Some 3], attrs = [(''m'', [YInt 3, YInt 4])]\<rparr>),
              (YStr ''C'', \<lparr>step_id = [3], return = [''ccc''], depends = [Some 1],
                            attrs = [(''m'', [YInt 3])]\<rparr>)],
      master = [], last_block = [''estimate''],
      groups = [(''simulate'', [YStr ''A'']), (''estimate'', [YStr ''B'']),
                (''transform'', [YStr ''C''])]\<rparr>"

definition shapes_chains :: "(yval \<times> nat) list list" where
  "shapes_chains = [[(YStr ''A'', 1), (YStr ''B'', 2)],
                    [(YStr ''A'', 1), (YStr ''C'', 3), (YStr ''B'', 4)]]"

definition shapes_shapes :: "string list list" where
  "shapes_shapes = [[''simulate'', ''estimate''], [''simulate'', ''transform'', ''estimate'']]"

text \<open>The master table of the block \<^verbatim>\<open>estimate\<close> for the store of the two example steps.\<close>

definition example_master :: dataframe where
  "example_master =
     \<lparr>columns = [''simulate_name'', ''simulate_id'', ''estimate_name'', ''estimate_id''],
      rows = [[YStr ''A'', YInt 1, YStr ''B'', YInt 2]]\<rparr>"

text \<open>
  Two steps of table \<^verbatim>\<open>B\<close>, of which the first has an output file with one scalar \<^verbatim>\<open>mse\<close>;
  the master table of their block, and its enrichment.
\<close>

definition enrich_db :: resultdb where
  "enrich_db =
     \<lparr>name = ''db'',
      data = [(YStr ''A'', \<lparr>step_id = [1], return = [''aaa''], depends = [None],
                            attrs = [(''n'', [YInt 100])]\<rparr>),
              (YStr ''B'', \<lparr>step_id = [2, 3], return = [''bbb'', ''bb2''],
                            depends = [Some 1, Some 1], attrs = [(''m'', [YInt 3, YInt 4])]\<rparr>)],
      master = [], last_block = [''estimate''],
      groups = [(''simulate'', [YStr ''A'']), (''estimate'', [YStr ''B''])]\<rparr>"

definition enrich_master :: dataframe where
  "enrich_master =
     \<lparr>columns = [''simulate_name'', ''simulate_id'', ''estimate_name'', ''estimate_id''],
      rows = [[YStr ''A'', YInt 1, YStr ''B'', YInt 2], [YStr ''A'', YInt 1, YStr ''B'', YInt 3]]\<rparr>"

definition enrich_isfile :: "string \<Rightarrow> bool" where
  "enrich_isfile f \<longleftrightarrow> f = ''db/bbb.rds''"

definition enrich_load :: "string \<Rightarrow> error + (string \<times> yval list) list" where
  "enrich_load f = Inr [(''mse'', [YFloat ''0.5''])]"

definition enrich_out :: dataframe where
  "enrich_out =
     \<lparr>columns = [''simulate_name'', ''simulate_id'', ''estimate_name'', ''estimate_id'', ''mse''],
      rows = [[YStr ''A'', YInt 1, YStr ''B'', YInt 2, YFloat ''0.5''],
              [YStr ''A'', YInt 1, YStr ''B'', YInt 3, YNone]]\<rparr>"

text \<open>
  Two files with a block under the same key \<^verbatim>\<open>1_aaa\<close>, the second with another attribute,
  and the store that ingesting them yields.
\<close>

definition overwrite_files :: "raw_file list" where
  "overwrite_files = [[(''1_aaa'', step_A)], [(''1_aaa'', step_A2)]]"

definition overwrite_db :: resultdb where
  "overwrite_db =
     \<lparr>name = ''db'',
      data = [(YStr ''A'', \<lparr>step_id = [1], return = [''aaa''], depends = [None],
                            attrs = [(''q'', [YInt 5])]\<rparr>)],
      master = [], last_block = [], groups = [(''simulate'', [YStr ''A''])]\<rparr>"

text \<open>
  A store whose step 2 depends on step 1, which in turn depends on a step id that no table
  has.
\<close>

definition chain_db :: resultdb where
  "chain_db =
     \<lparr>name = ''db'',
      data = [(YStr ''A'', \<lparr>step_id = [1], return = [''aaa''], depends = [Some 99],
                            attrs = [(''n'', [YInt 100])]\<rparr>),
              (YStr ''B'', \<lparr>step_id = [2], return = [''bbb''], depends = [Some 1],
                            attrs = [(''m'', [YInt 3])]\<rparr>)],
      master = [], last_block = [''estimate''],
      groups = [(''simulate'', [YStr ''A'']), (''estimate'', [YStr ''B''])]\<rparr>"

text \<open>
  The two example steps, the first with a null \<^verbatim>\<open>exec\<close>, and the store that ingesting them
  yields.
\<close>

definition step_null :: vdict where
  "step_null = [(''exec'', YNone), (''step_name'', YStr ''simulate_1''),
                (''sequence_name'', YStr ''simulate_1+estimate_1''), (''n'', YInt 100)]"

definition null_exec_files :: "raw_file list" where
  "null_exec_files = [[(''1_aaa'', step_null), (''2_bbb_aaa'', step_B)]]"

definition null_exec_db :: resultdb where
  "null_exec_db =
     \<lparr>name = ''db'',
      data = [(YNone, \<lparr>step_id = [1], return = [''aaa''], depends = [None],
                        attrs = [(''n'', [YInt 100])]\<rparr>),
              (YStr ''B'', \<lparr>step_id = [2], return = [''bbb''], depends = [Some 1],
                            attrs = [(''m'', [YInt 3])]\<rparr>)],
      master = [], last_block = [''estimate''],
      groups = [(''simulate'', [YNone]), (''estimate'', [YStr ''B''])]\<rparr>"

section \<open>Dictionaries stay dictionaries\<close>

lemma split_on_nonempty: "split_on c s \<noteq> []"
  by (induction s) (auto split: list.splits)

lemma distinct_od_update: "distinct (map fst d) \<Longrightarrow> distinct (map fst (od_update d other))"
  unfolding od_update_def
  by (induction other arbitrary: d) (auto simp: distinct_update)

lemma distinct_od_of: "distinct (map fst (od_of items))"
  by (simp add: od_of_def distinct_od_update)

lemma snd_set_update: "snd ` set (AList.update k v al) \<subseteq> insert v (snd ` set al)"
  by (induction al) auto

lemma snd_set_od_update: "snd ` set (od_update d other) \<subseteq> snd ` set d \<union> snd ` set other"
  unfolding od_update_def
proof (induction other arbitrary: d)
  case Nil
  then show ?case by simp
next
  case (Cons kv other)
  obtain k v where kv: "kv = (k, v)" by (cases kv)
  have "snd ` set (fold (\<lambda>(k, v). AList.update k v) other (AList.update k v d))
        \<subseteq> snd ` set (AList.update k v d) \<union> snd ` set other"
    by (rule Cons.IH)
  also have "\<dots> \<subseteq> insert v (snd ` set d) \<union> snd ` set other"
    using snd_set_update [of k v d] by blast
  finally show ?case by (auto simp: kv)
qed


lemma dict_values_iff: "dict_values d \<longleftrightarrow> (\<forall>v \<in> snd ` set d. distinct (map fst v))"
  by (auto simp: dict_values_def list_all_iff)

lemma dict_values_ordered_load: "dict_values (ordered_load f)"
proof -
  have "snd ` set (ordered_load f) \<subseteq> snd ` set (map (\<lambda>(k, kv). (k, od_of kv)) f)"
    using snd_set_od_update [of "[]" "map (\<lambda>(k, kv). (k, od_of kv)) f"]
    by (simp add: ordered_load_def od_of_def)
  then show ?thesis
    by (auto simp: dict_values_iff distinct_od_of dest!: subsetD)
qed

lemma dict_values_load_data_aux:
  "dict_values d \<Longrightarrow> dict_values (fold (\<lambda>f d. od_update d (ordered_load f)) files d)"
proof (induction files arbitrary: d)
  case Nil
  then show ?case by simp
next
  case (Cons f files)
  have "dict_values (od_update d (ordered_load f))"
    using snd_set_od_update [of d "ordered_load f"] Cons.prems dict_values_ordered_load [of f]
    unfolding dict_values_iff by blast
  then show ?case using Cons.IH by simp
qed

lemma dict_values_load_data: "dict_values (load_data files)"
  unfolding load_data_def by (rule dict_values_load_data_aux) (simp add: dict_values_def)

lemma distinct_load_data_aux:
  "distinct (map fst d) \<Longrightarrow> distinct (map fst (fold (\<lambda>f d. od_update d (ordered_load f)) files d))"
  by (induction files arbitrary: d) (auto simp: distinct_od_update)

lemma distinct_load_data: "distinct (map fst (load_data files))"
  unfolding load_data_def by (rule distinct_load_data_aux) simp

lemma set_dedup: "set (dedup seen kvs) \<subseteq> set kvs"
proof (induction kvs arbitrary: seen)
  case Nil
  then show ?case by simp
next
  case (Cons kv kvs)
  obtain k v where kv: "kv = (k, v)" by (cases kv)
  show ?case
    using Cons.IH [of seen] Cons.IH [of "seen @ [key_suffix k]"]
    by (auto simp: kv Let_def)
qed

lemma dict_values_dedup: "dict_values kvs \<Longrightarrow> dict_values (dedup seen kvs)"
  using set_dedup [of seen kvs] unfolding dict_values_iff by blast

lemma distinct_dedup: "distinct (map fst kvs) \<Longrightarrow> distinct (map fst (dedup seen kvs))"
proof (induction kvs arbitrary: seen)
  case Nil
  then show ?case by simp
next
  case (Cons kv kvs)
  obtain k v where kv: "kv = (k, v)" by (cases kv)
  have "k \<notin> fst ` set (dedup s kvs)" for s
    using set_dedup [of s kvs] Cons.prems by (auto simp: kv)
  then show ?case using Cons by (auto simp: kv Let_def)
qed

lemma distinct_rename_key: "distinct (map fst v) \<Longrightarrow> distinct (map fst (rename_key x v))"
  by (auto simp: rename_key_def distinct_update distinct_delete split: option.splits)

lemma distinct_rename_keys: "distinct (map fst v) \<Longrightarrow> distinct (map fst (rename_keys v))"
  by (simp add: rename_keys_def distinct_rename_key)

lemma update_as_map:
  "distinct (map fst al) \<Longrightarrow> map_of al k = Some v0 \<Longrightarrow>
   AList.update k v al = map (\<lambda>(c, x). if c = k then (c, v) else (c, x)) al"
proof (induction al)
  case Nil
  then show ?case by simp
next
  case (Cons p al)
  obtain c x where p: "p = (c, x)" by (cases p)
  show ?case
  proof (cases "c = k")
    case True
    then have "k \<notin> fst ` set al" using Cons.prems by (auto simp: p)
    then have "map (\<lambda>(c, x). if c = k then (c, v) else (c, x)) al = al"
      by (induction al) auto
    then show ?thesis using True by (simp add: p)
  next
    case False
    then show ?thesis using Cons by (simp add: p)
  qed
qed

section \<open>Ingestion keeps the columns of a table parallel\<close>

lemma od_update_distinct_id:
  "distinct (map fst (d @ items)) \<Longrightarrow> od_update d items = d @ items"
  unfolding od_update_def
proof (induction items arbitrary: d)
  case Nil
  then show ?case by simp
next
  case (Cons kv items)
  obtain k v where kv: "kv = (k, v)" by (cases kv)
  have notin: "k \<notin> fst ` set d" using Cons.prems by (auto simp: kv)
  have upd: "AList.update k v d = d @ [(k, v)]"
    using notin by (induction d) auto
  have "distinct (map fst ((d @ [(k, v)]) @ items))" using Cons.prems by (simp add: kv)
  from Cons.IH [OF this] show ?case by (simp add: kv upd)
qed

lemma od_of_distinct_id: "distinct (map fst items) \<Longrightarrow> od_of items = items"
  using od_update_distinct_id [of "[]" items] by (simp add: od_of_def)

lemma append_attrs_map:
  "distinct (map fst rest) \<Longrightarrow> distinct (map fst cols) \<Longrightarrow> append_attrs rest cols = Inr a \<Longrightarrow>
   a = map (appended rest) cols"
proof (induction rest arbitrary: cols)
  case Nil
  have "appended [] c = c" for c by (simp add: appended_def)
  then have "map (appended []) cols = cols" by (simp add: map_idI)
  then show ?case using Nil by simp
next
  case (Cons kv rest)
  obtain k1 v1 where kv: "kv = (k1, v1)" by (cases kv)
  have k1_notin: "k1 \<notin> fst ` set rest" and drest: "distinct (map fst rest)"
    using Cons.prems(1) by (auto simp: kv)
  show ?case
  proof (cases "k1 \<in> set bookkeeping")
    case True
    then have "append_attrs rest cols = Inr a" using Cons.prems(3) by (simp add: kv)
    from Cons.IH [OF drest Cons.prems(2) this] have a: "a = map (appended rest) cols" .
    have "appended ((k1, v1) # rest) c = appended rest c" for c
      using True by (auto simp: appended_def)
    then show ?thesis by (simp add: a kv)
  next
    case False
    then obtain col where col: "map_of cols k1 = Some col"
      and rec: "append_attrs rest (AList.update k1 (col @ [v1]) cols) = Inr a"
      using Cons.prems(3) by (auto simp: kv split: option.splits)
    let ?cols1 = "AList.update k1 (col @ [v1]) cols"
    have d1: "distinct (map fst ?cols1)" using Cons.prems(2) by (simp add: distinct_update)
    from Cons.IH [OF drest d1 rec] have a: "a = map (appended rest) ?cols1" .
    have c1: "?cols1 = map (\<lambda>(c, x). if c = k1 then (c, col @ [v1]) else (c, x)) cols"
      by (rule update_as_map [OF Cons.prems(2) col])
    have none: "map_of rest k1 = None" using k1_notin by (simp add: map_of_eq_None_iff)
    have step: "appended rest ((\<lambda>(c, x). if c = k1 then (c, col @ [v1]) else (c, x)) c)
          = appended ((k1, v1) # rest) c" if "c \<in> set cols" for c
    proof -
      obtain n x where c: "c = (n, x)" by (cases c)
      show ?thesis
      proof (cases "n = k1")
        case True
        then have "x = col" using that col Cons.prems(2) by (simp add: c)
        then show ?thesis using True False none by (simp add: appended_def c)
      next
        case False
        then show ?thesis by (simp add: appended_def c)
      qed
    qed
    have "map (appended rest) ?cols1 = map (appended ((k1, v1) # rest)) cols"
      unfolding c1 by (simp add: step)
    then show ?thesis by (simp add: a kv)
  qed
qed

lemma collect_meta_Inr:
  assumes "collect_meta idx v0 s = Inr (tbl, v, tb, s2)"
  shows "map_of v0 ''exec'' = Some tbl" and "v = rename_keys v0" and "data s2 = data s"
    and "name s2 = name s" and "master s2 = master s"
    and "map_of (data s) tbl = None \<Longrightarrow> tb = new_table v"
    and "map_of (data s) tbl = Some tb0 \<Longrightarrow> tb = tb0 \<and> keys1 v = keys2 tb"
  using assms
  by (auto simp: collect_meta_def Let_def split: option.splits yval.splits sum.splits if_splits)

lemma keys_new_table: "distinct (map fst v) \<Longrightarrow> keys2 (new_table v) = keys1 v"
  by (simp add: keys2_def keys1_def new_table_def od_of_distinct_id distinct_map_filter comp_def)

lemma distinct_attrs_new_table: "distinct (map fst (attrs (new_table v)))"
  by (simp add: new_table_def distinct_od_of)

lemma collect_meta_keys:
  assumes "collect_meta idx v0 s = Inr (tbl, v, tb, s2)" and "distinct (map fst v0)"
  shows "keys1 v = keys2 tb"
proof (cases "map_of (data s) tbl")
  case None
  then show ?thesis
    using collect_meta_Inr(2,6) [OF assms(1)] keys_new_table distinct_rename_keys [OF assms(2)]
    by simp
next
  case (Some tb0)
  then show ?thesis using collect_meta_Inr(7) [OF assms(1)] by simp
qed

lemma append_record_Inr:
  assumes "append_record ks idx k (tbl, v, tb, s2) = Inr s'"
  shows "\<exists>r dep a. append_attrs v (attrs tb) = Inr a \<and>
           s' = s2\<lparr>data := AList.update tbl
                    \<lparr>step_id = step_id tb @ [idx + 1], return = return tb @ [r],
                     depends = depends tb @ [dep], attrs = a\<rparr> (data s2)\<rparr>"
  using assms
  by (auto simp: append_record_def Let_def split: list.splits sum.splits if_splits)

lemma appended_one:
  assumes "keys1 v = keys2 tb" and "c \<in> set (attrs tb)"
  shows "\<exists>x. appended v c = (fst c, snd c @ [x])"
proof -
  have "set (keys1 v) = set (keys2 tb)" using assms(1) by simp
  then have "fst c \<in> set (filter (\<lambda>x. x \<notin> set bookkeeping) (map fst v))"
    using assms(2) by (auto simp: keys1_def keys2_def)
  then have nb: "fst c \<notin> set bookkeeping" and "fst c \<in> fst ` set v" by auto
  then obtain x where "map_of v (fst c) = Some x"
    by (metis map_of_eq_None_iff not_Some_eq)
  then show ?thesis using nb by (simp add: appended_def)
qed


lemma dict_tables_map_of:
  "dict_tables s \<Longrightarrow> map_of (data s) t = Some tb \<Longrightarrow> distinct (map fst (attrs tb))"
  by (auto simp: dict_tables_def list_all_iff dest!: map_of_SomeD)

lemma ingest_record_data:
  assumes "ingest_record ks idx (k, v0) s = Inr s'" and "distinct (map fst v0)"
    and "\<And>tb. map_of (data s) tbl = Some tb \<Longrightarrow> distinct (map fst (attrs tb))"
    and "map_of v0 ''exec'' = Some tbl"
  shows "\<exists>r dep. data s' = AList.update tbl
             \<lparr>step_id = step_id (case map_of (data s) tbl of None \<Rightarrow> new_table (rename_keys v0) | Some tb0 \<Rightarrow> tb0) @ [idx + 1],
              return = return (case map_of (data s) tbl of None \<Rightarrow> new_table (rename_keys v0) | Some tb0 \<Rightarrow> tb0) @ [r],
              depends = depends (case map_of (data s) tbl of None \<Rightarrow> new_table (rename_keys v0) | Some tb0 \<Rightarrow> tb0) @ [dep],
              attrs = map (appended (rename_keys v0)) (attrs (case map_of (data s) tbl of None \<Rightarrow> new_table (rename_keys v0) | Some tb0 \<Rightarrow> tb0))\<rparr> (data s)"
    and "keys1 (rename_keys v0) = keys2 (case map_of (data s) tbl of None \<Rightarrow> new_table (rename_keys v0) | Some tb0 \<Rightarrow> tb0)"
    and "name s' = name s" and "master s' = master s"
proof -
  let ?tb = "case map_of (data s) tbl of None \<Rightarrow> new_table (rename_keys v0) | Some tb0 \<Rightarrow> tb0"
  obtain m where m: "collect_meta idx v0 s = Inr m" and ar: "append_record ks idx k m = Inr s'"
    using assms(1) by (auto simp: ingest_record_def split: sum.splits)
  obtain tbl' v tb s2 where mm: "m = (tbl', v, tb, s2)" by (cases m)
  note cm = collect_meta_Inr [OF m [unfolded mm]]
  have tbl: "tbl' = tbl" using cm(1) assms(4) by simp
  have v: "v = rename_keys v0" by (rule cm(2))
  have tb: "tb = ?tb"
  proof (cases "map_of (data s) tbl")
    case None
    then show ?thesis using cm(6) tbl v by simp
  next
    case (Some tb0)
    then show ?thesis using cm(7) [of tb0] tbl by simp
  qed
  show keys: "keys1 (rename_keys v0) = keys2 ?tb"
    using collect_meta_keys [OF m [unfolded mm] assms(2)] v tb by simp
  have dv: "distinct (map fst v)" using assms(2) v by (simp add: distinct_rename_keys)
  have dtb: "distinct (map fst (attrs tb))"
  proof (cases "map_of (data s) tbl")
    case None
    then show ?thesis using tb by (simp add: distinct_attrs_new_table)
  next
    case (Some tb0)
    then show ?thesis using tb assms(3) by simp
  qed
  obtain r dep a where a: "append_attrs v (attrs tb) = Inr a"
    and s': "s' = s2\<lparr>data := AList.update tbl
                    \<lparr>step_id = step_id tb @ [idx + 1], return = return tb @ [r],
                     depends = depends tb @ [dep], attrs = a\<rparr> (data s2)\<rparr>"
    using append_record_Inr [OF ar [unfolded mm]] tbl by blast
  have "a = map (appended v) (attrs tb)" by (rule append_attrs_map [OF dv dtb a])
  then show "\<exists>r dep. data s' = AList.update tbl
             \<lparr>step_id = step_id ?tb @ [idx + 1], return = return ?tb @ [r],
              depends = depends ?tb @ [dep],
              attrs = map (appended (rename_keys v0)) (attrs ?tb)\<rparr> (data s)"
    using s' cm(3) v tb by auto
  show "name s' = name s" using s' cm(4) by simp
  show "master s' = master s" using s' cm(5) by simp
qed

lemma appends_one_appended:
  assumes "keys1 v = keys2 tb"
  shows "appends_one tb \<lparr>step_id = step_id tb @ [i], return = return tb @ [r],
              depends = depends tb @ [dep], attrs = map (appended v) (attrs tb)\<rparr>"
proof -
  have "list_all2 (\<lambda>c c'. fst c' = fst c \<and> (\<exists>x. snd c' = snd c @ [x])) (attrs tb)
          (map (appended v) (attrs tb))"
    unfolding list_all2_map2
  proof (rule list_all2_same [THEN iffD2], rule ballI)
    fix c assume "c \<in> set (attrs tb)"
    from appended_one [OF assms this] obtain x where "appended v c = (fst c, snd c @ [x])" ..
    then show "fst (appended v c) = fst c \<and> (\<exists>x. snd (appended v c) = snd c @ [x])" by simp
  qed
  then show ?thesis by (simp add: appends_one_def)
qed

lemma appends_one_parallel:
  assumes "appends_one tb tb'" and "parallel_columns n tb"
  shows "parallel_columns (Suc n) tb'"
proof -
  have l2: "list_all2 (\<lambda>c c'. fst c' = fst c \<and> (\<exists>x. snd c' = snd c @ [x])) (attrs tb) (attrs tb')"
    using assms(1) by (simp add: appends_one_def)
  have all: "\<forall>c \<in> set (attrs tb). length (snd c) = n"
    using assms(2) by (simp add: parallel_columns_def list_all_iff)
  have "length (snd c') = Suc n" if "c' \<in> set (attrs tb')" for c'
  proof -
    from that obtain j where j: "j < length (attrs tb')" "attrs tb' ! j = c'"
      by (auto simp: in_set_conv_nth)
    have len: "length (attrs tb) = length (attrs tb')" using l2 by (rule list_all2_lengthD)
    from list_all2_nthD2 [OF l2 j(1)] j(2)
    obtain x where "snd c' = snd (attrs tb ! j) @ [x]" by auto
    moreover have "attrs tb ! j \<in> set (attrs tb)" using j(1) len by simp
    ultimately show ?thesis using all by simp
  qed
  then show ?thesis
    using assms by (auto simp: appends_one_def parallel_columns_def list_all_iff)
qed

lemma appends_one_keys: "appends_one tb tb' \<Longrightarrow> map fst (attrs tb') = map fst (attrs tb)"
  unfolding appends_one_def
  by (auto simp: list_eq_iff_nth_eq list_all2_conv_all_nth)

lemma parallel_new_table: "parallel_columns 0 (new_table v)"
proof -
  let ?items = "map (\<lambda>x. (x, [] :: yval list)) (filter (\<lambda>x. x \<notin> set bookkeeping) (map fst v))"
  have "snd ` set (od_of ?items) \<subseteq> {[]}"
    using snd_set_od_update [of "[]" ?items] by (auto simp: od_of_def)
  then show ?thesis
    by (auto simp: parallel_columns_def new_table_def list_all_iff)
qed

lemma set_update_subset: "set (AList.update k v al) \<subseteq> insert (k, v) (set al)"
  by (induction al) auto

lemma ingest_record_exec:
  "ingest_record ks idx (k, v0) s = Inr s' \<Longrightarrow> \<exists>tbl. map_of v0 ''exec'' = Some tbl"
  by (auto simp: ingest_record_def collect_meta_def split: sum.splits option.splits)

lemma ingest_record_step:
  assumes rec: "ingest_record ks idx (k, v0) s = Inr s'" and dv: "distinct (map fst v0)"
    and dt: "dict_tables s" and ex: "map_of v0 ''exec'' = Some tbl"
  shows "\<exists>tb'. map_of (data s') tbl = Some tb' \<and>
           appends_one (case map_of (data s) tbl of None \<Rightarrow> new_table (rename_keys v0)
                        | Some tb \<Rightarrow> tb) tb'"
    and "t \<noteq> tbl \<Longrightarrow> map_of (data s') t = map_of (data s) t"
    and "dict_tables s'"
proof -
  let ?tb = "case map_of (data s) tbl of None \<Rightarrow> new_table (rename_keys v0) | Some tb \<Rightarrow> tb"
  have d3: "\<And>tb. map_of (data s) tbl = Some tb \<Longrightarrow> distinct (map fst (attrs tb))"
    using dt by (rule dict_tables_map_of)
  from ingest_record_data(1) [OF rec dv d3 ex] obtain r dep where
    ds: "data s' = AList.update tbl
             \<lparr>step_id = step_id ?tb @ [idx + 1], return = return ?tb @ [r],
              depends = depends ?tb @ [dep],
              attrs = map (appended (rename_keys v0)) (attrs ?tb)\<rparr> (data s)"
    by blast
  have keys: "keys1 (rename_keys v0) = keys2 ?tb"
    by (rule ingest_record_data(2) [OF rec dv d3 ex])
  let ?tb' = "\<lparr>step_id = step_id ?tb @ [idx + 1], return = return ?tb @ [r],
              depends = depends ?tb @ [dep],
              attrs = map (appended (rename_keys v0)) (attrs ?tb)\<rparr>"
  have ao: "appends_one ?tb ?tb'" by (rule appends_one_appended [OF keys])
  have look: "map_of (data s') tbl = Some ?tb'" by (simp add: ds update_conv')
  show "\<exists>tb'. map_of (data s') tbl = Some tb' \<and> appends_one ?tb tb'"
    using look ao by blast
  show "t \<noteq> tbl \<Longrightarrow> map_of (data s') t = map_of (data s) t"
    by (simp add: ds update_conv')
  have dtb: "distinct (map fst (attrs ?tb))"
    using d3 by (auto simp: distinct_attrs_new_table split: option.splits)
  have "map fst (attrs ?tb') = map fst (attrs ?tb)" by (rule appends_one_keys [OF ao])
  then have "distinct (map fst (attrs ?tb'))" using dtb by (simp only:)
  moreover have "set (data s') \<subseteq> insert (tbl, ?tb') (set (data s))"
    unfolding ds by (rule set_update_subset)
  ultimately show "dict_tables s'"
    using dt unfolding dict_tables_def list_all_iff by (auto dest!: subsetD)
qed

lemma ingest_loop_parallel:
  assumes "ingest_loop ks idx items s = Inr s'" and "dict_values items" and "dict_tables s"
    and "\<And>t tb. map_of (data s) t = Some tb \<Longrightarrow> parallel_columns (c t) tb"
    and "\<And>t. map_of (data s) t = None \<Longrightarrow> c t = 0"
  shows "(\<forall>t tb. map_of (data s') t = Some tb \<longrightarrow> parallel_columns (c t + n_records t items) tb)
       \<and> (\<forall>t. map_of (data s') t = None \<longrightarrow> c t + n_records t items = 0)"
  using assms
proof (induction items arbitrary: idx s c)
  case Nil
  then show ?case by (simp add: n_records_def)
next
  case (Cons kv items)
  obtain k v0 where kv: "kv = (k, v0)" by (cases kv)
  obtain s1 where rec: "ingest_record ks idx (k, v0) s = Inr s1"
    and loop: "ingest_loop ks (idx + 1) items s1 = Inr s'"
    using Cons.prems(1) by (auto simp: kv split: sum.splits)
  have dv: "distinct (map fst v0)" and dvs: "dict_values items"
    using Cons.prems(2) by (auto simp: dict_values_def kv)
  obtain tbl where ex: "map_of v0 ''exec'' = Some tbl"
    using ingest_record_exec [OF rec] by blast
  note st = ingest_record_step [OF rec dv Cons.prems(3) ex]
  let ?c1 = "\<lambda>t. c t + (if t = tbl then 1 else 0)"
  let ?tb = "case map_of (data s) tbl of None \<Rightarrow> new_table (rename_keys v0) | Some tb \<Rightarrow> tb"
  have par0: "parallel_columns (c tbl) ?tb"
    using Cons.prems(4) [of tbl] Cons.prems(5) [of tbl] parallel_new_table
    by (auto split: option.splits)
  have p1: "parallel_columns (?c1 t) tb" if "map_of (data s1) t = Some tb" for t tb
  proof (cases "t = tbl")
    case True
    then show ?thesis
      using st(1) that appends_one_parallel [OF _ par0] by auto
  next
    case False
    then show ?thesis using st(2) [of t] that Cons.prems(4) by simp
  qed
  have p2: "?c1 t = 0" if "map_of (data s1) t = None" for t
  proof -
    have "t \<noteq> tbl" using st(1) that by auto
    then show ?thesis using st(2) [of t] that Cons.prems(5) by simp
  qed
  have nr: "n_records t (kv # items) = (if t = tbl then 1 else 0) + n_records t items" for t
    using ex by (auto simp: n_records_def kv)
  from Cons.IH [where c = ?c1, OF loop dvs st(3) p1 p2]
  show ?case by (simp add: nr add.assoc)
qed

lemma ingest_loop_dict_tables:
  "ingest_loop ks idx items s = Inr s' \<Longrightarrow> dict_values items \<Longrightarrow> dict_tables s \<Longrightarrow> dict_tables s'"
proof (induction items arbitrary: idx s)
  case Nil
  then show ?case by simp
next
  case (Cons kv items)
  obtain k v0 where kv: "kv = (k, v0)" by (cases kv)
  obtain s1 where rec: "ingest_record ks idx (k, v0) s = Inr s1"
    and loop: "ingest_loop ks (idx + 1) items s1 = Inr s'"
    using Cons.prems(1) by (auto simp: kv split: sum.splits)
  have dv: "distinct (map fst v0)" and dvs: "dict_values items"
    using Cons.prems(2) by (auto simp: dict_values_def kv)
  obtain tbl where ex: "map_of v0 ''exec'' = Some tbl"
    using ingest_record_exec [OF rec] by blast
  from Cons.IH [OF loop dvs ingest_record_step(3) [OF rec dv Cons.prems(3) ex]]
  show ?case .
qed

lemma dict_values_input: "dict_values (dedup [] (load_data files))"
  by (rule dict_values_dedup [OF dict_values_load_data])

text \<open>
  Claim C10. After a successful ingestion into a fresh database, all columns of every table
  (\<^verbatim>\<open>step_id\<close>, \<^verbatim>\<open>return\<close>, \<^verbatim>\<open>depends\<close> and every attribute column) have the same length, which
  is the number of ingested entries of that table; and the insertion of one entry appends
  exactly one element to every column of the entry's table (a fresh table when the entry is
  the first of its table) and leaves every other table as it was.
\<close>

theorem load_parameters_parallel_columns:
  "(load_parameters files (ResultDB db_name) = Inr self \<longrightarrow>
      map_of (data self) t = Some tb \<longrightarrow>
      parallel_columns (n_records t (entries files)) tb)
   \<and> (ingest_record ks idx (k, v) s = Inr s' \<longrightarrow> distinct (map fst v) \<longrightarrow> dict_tables s \<longrightarrow>
      (\<exists>tbl tb'. map_of v ''exec'' = Some tbl \<and> map_of (data s') tbl = Some tb'
         \<and> appends_one (case map_of (data s) tbl of None \<Rightarrow> new_table (rename_keys v)
                         | Some tb0 \<Rightarrow> tb0) tb'
         \<and> (\<forall>t'. t' \<noteq> tbl \<longrightarrow> map_of (data s') t' = map_of (data s) t')))"
proof (intro conjI impI)
  assume lp: "load_parameters files (ResultDB db_name) = Inr self"
    and look: "map_of (data self) t = Some tb"
  let ?d = "dedup [] (load_data files)"
  have loop: "ingest_loop (map fst ?d) 0 ?d (ResultDB db_name) = Inr self"
    using lp by (simp add: load_parameters_def Let_def)
  have "dict_tables (ResultDB db_name)" by (simp add: dict_tables_def ResultDB_def)
  from ingest_loop_parallel [OF loop dict_values_input this, of "\<lambda>_. 0"] look
  show "parallel_columns (n_records t (entries files)) tb" by (simp add: ResultDB_def entries_def)
next
  assume rec: "ingest_record ks idx (k, v) s = Inr s'" and dv: "distinct (map fst v)"
    and dt: "dict_tables s"
  obtain tbl where ex: "map_of v ''exec'' = Some tbl"
    using ingest_record_exec [OF rec] by blast
  note st = ingest_record_step [OF rec dv dt ex]
  show "\<exists>tbl tb'. map_of v ''exec'' = Some tbl \<and> map_of (data s') tbl = Some tb'
         \<and> appends_one (case map_of (data s) tbl of None \<Rightarrow> new_table (rename_keys v)
                         | Some tb0 \<Rightarrow> tb0) tb'
         \<and> (\<forall>t'. t' \<noteq> tbl \<longrightarrow> map_of (data s') t' = map_of (data s) t')"
    using ex st(1) st(2) by blast
qed

theorem load_parameters_parallel_columns_witness:
  "load_parameters example_files (ResultDB ''db'') = Inr example_db
   \<and> map_of (data example_db) (YStr ''B'') = Some \<lparr>step_id = [2], return = [''bbb''], depends = [Some 1],
                            attrs = [(''m'', [YInt 3])]\<rparr>
   \<and> n_records (YStr ''B'') (entries example_files) = 1
   \<and> parallel_columns 1 \<lparr>step_id = [2], return = [''bbb''], depends = [Some 1],
                            attrs = [(''m'', [YInt 3])]\<rparr>
   \<and> ingest_record [''1_aaa'', ''2_bbb_aaa''] 0 (''1_aaa'', step_A) (ResultDB ''db'')
       = Inr \<lparr>name = ''db'',
      data = [(YStr ''A'', \<lparr>step_id = [1], return = [''aaa''], depends = [None],
                            attrs = [(''n'', [YInt 100])]\<rparr>)],
      master = [], last_block = [],
      groups = [(''simulate'', [YStr ''A''])]\<rparr>
   \<and> distinct (map fst step_A) \<and> dict_tables (ResultDB ''db'')
   \<and> appends_one (new_table (rename_keys step_A)) \<lparr>step_id = [1], return = [''aaa''], depends = [None],
                            attrs = [(''n'', [YInt 100])]\<rparr>"
proof -
  have lp: "load_parameters example_files (ResultDB ''db'') = Inr example_db" by code_simp
  have look: "map_of (data example_db) (YStr ''B'') = Some \<lparr>step_id = [2], return = [''bbb''], depends = [Some 1],
                            attrs = [(''m'', [YInt 3])]\<rparr>" by code_simp
  have n: "n_records (YStr ''B'') (entries example_files) = 1" by code_simp
  have rec: "ingest_record [''1_aaa'', ''2_bbb_aaa''] 0 (''1_aaa'', step_A) (ResultDB ''db'')
       = Inr \<lparr>name = ''db'',
      data = [(YStr ''A'', \<lparr>step_id = [1], return = [''aaa''], depends = [None],
                            attrs = [(''n'', [YInt 100])]\<rparr>)],
      master = [], last_block = [],
      groups = [(''simulate'', [YStr ''A''])]\<rparr>" by code_simp
  have dv: "distinct (map fst step_A)" by code_simp
  have dt: "dict_tables (ResultDB ''db'')" by code_simp
  have ex: "map_of step_A ''exec'' = Some (YStr ''A'')" by code_simp
  have none: "map_of (data (ResultDB ''db'')) (YStr ''A'') = None" by code_simp
  note inst = load_parameters_parallel_columns [of example_files "''db''" example_db "YStr ''B''" _
      "[''1_aaa'', ''2_bbb_aaa'']" 0 "''1_aaa''" step_A "ResultDB ''db''"]
  from inst [THEN conjunct1, rule_format, OF lp look] n
  have p: "parallel_columns 1 \<lparr>step_id = [2], return = [''bbb''], depends = [Some 1],
                            attrs = [(''m'', [YInt 3])]\<rparr>" by simp
  from inst [THEN conjunct2, rule_format, OF rec dv dt] ex none
  have ao: "appends_one (new_table (rename_keys step_A)) \<lparr>step_id = [1], return = [''aaa''], depends = [None],
                            attrs = [(''n'', [YInt 100])]\<rparr>" by auto
  show ?thesis using lp look n p rec dv dt ao by blast
qed

section \<open>A schema mismatch ends in the wrong exception\<close>

lemma inconsistent_keys_IndexError: "inconsistent_keys idx v tb = IndexError"
  by (simp add: inconsistent_keys_def format_fields_def)

lemma collect_meta_no_ResultDBError: "collect_meta idx v0 s \<noteq> Inl (ResultDBError msg)"
  by (auto simp: collect_meta_def update_last_block_def inconsistent_keys_IndexError Let_def
      split: option.splits yval.splits sum.splits if_splits)

text \<open>
  Claim C3. Two entries of one table with different attribute keys do stop the ingestion,
  but not with a \<^verbatim>\<open>ResultDBError\<close> that names the steps: the \<^verbatim>\<open>raise\<close> statement of lines 84-86 never
  builds its message, because the format string asks for a fifth argument. Whatever the
  entry and the table, the exception is \<^verbatim>\<open>IndexError\<close>; lines 60-86 raise no \<^verbatim>\<open>ResultDBError\<close> at
  all; and ingestion of the steps 1 and 2 of table \<^verbatim>\<open>A\<close>, with the attributes \<^verbatim>\<open>n\<close> and \<^verbatim>\<open>q\<close>,
  ends in \<^verbatim>\<open>IndexError\<close>.
\<close>

theorem schema_mismatch_raises_IndexError:
  "inconsistent_keys idx v tb = IndexError
   \<and> collect_meta idx v0 s \<noteq> Inl (ResultDBError msg)
   \<and> load_parameters mismatch_files (ResultDB ''db'') = Inl IndexError"
proof (intro conjI)
  show "inconsistent_keys idx v tb = IndexError" by (rule inconsistent_keys_IndexError)
  show "collect_meta idx v0 s \<noteq> Inl (ResultDBError msg)" by (rule collect_meta_no_ResultDBError)
  show "load_parameters mismatch_files (ResultDB ''db'') = Inl IndexError"
    by code_simp
qed

section \<open>Deduplication: the first key wins, and loading twice changes nothing\<close>

lemma od_update_append: "od_update d (xs @ ys) = od_update (od_update d xs) ys"
  by (simp add: od_update_def)

lemma load_data_fold:
  "fold (\<lambda>f d. od_update d (ordered_load f)) files d = od_update d (concat (map ordered_load files))"
  by (induction files arbitrary: d) (simp_all add: od_update_def)

lemma load_data_flat: "load_data files = od_of (concat (map ordered_load files))"
  by (simp add: load_data_def load_data_fold od_of_def)

lemma keys_od_update_known:
  "fst ` set xs \<subseteq> fst ` set d \<Longrightarrow> map fst (od_update d xs) = map fst d"
  unfolding od_update_def
proof (induction xs arbitrary: d)
  case Nil
  then show ?case by simp
next
  case (Cons kv xs)
  obtain k v where kv: "kv = (k, v)" by (cases kv)
  have k: "k \<in> fst ` set d" using Cons.prems by (auto simp: kv)
  then have keys: "map fst (AList.update k v d) = map fst d" by (simp add: update_keys)
  then have "fst ` set xs \<subseteq> fst ` set (AList.update k v d)"
    using Cons.prems by (auto simp: dom_update kv)
  from Cons.IH [OF this] keys show ?case by (simp add: kv)
qed

lemma map_of_od_update: "map_of (od_update d xs) = map_of d ++ map_of (rev xs)"
  unfolding od_update_def
proof (induction xs arbitrary: d)
  case Nil
  then show ?case by simp
next
  case (Cons kv xs)
  obtain k v where kv: "kv = (k, v)" by (cases kv)
  have "map_of (fold (\<lambda>(k, v). AList.update k v) xs (AList.update k v d))
        = map_of (AList.update k v d) ++ map_of (rev xs)" by (rule Cons.IH)
  also have "\<dots> = (map_of d)(k \<mapsto> v) ++ map_of (rev xs)" by (simp only: update_conv')
  also have "\<dots> = map_of d ++ map_of (rev ((k, v) # xs))" by simp
  finally show ?case by (simp add: kv)
qed


lemma alist_eqI:
  assumes "distinct (map fst a)" and "map fst a = map fst b" and "map_of a = map_of b"
  shows "a = b"
proof -
  have db: "distinct (map fst b)" using assms(1,2) by simp
  have len: "length a = length b" using assms(2) by (metis length_map)
  have "a ! i = b ! i" if "i < length a" for i
  proof -
    have fa: "fst (a ! i) = fst (b ! i)" using assms(2) that len by (metis nth_map)
    have "map_of a (fst (a ! i)) = Some (snd (a ! i))"
      using assms(1) that by (simp add: map_of_eq_Some_iff)
    moreover have "map_of b (fst (b ! i)) = Some (snd (b ! i))"
      using db that len by (simp add: map_of_eq_Some_iff)
    ultimately have "snd (a ! i) = snd (b ! i)" using fa assms(3) by simp
    then show ?thesis using fa by (simp add: prod_eq_iff)
  qed
  then show ?thesis using len by (simp add: list_eq_iff_nth_eq)
qed

lemma od_of_twice: "od_of (xs @ xs) = od_of xs"
proof (rule alist_eqI)
  show "distinct (map fst (od_of (xs @ xs)))" by (rule distinct_od_of)
  have sub: "fst ` set xs \<subseteq> fst ` set (od_update [] xs)"
  proof -
    have "dom (map_of (od_update [] xs)) = dom (map_of (rev xs))"
      by (simp add: map_of_od_update)
    then show ?thesis by (simp add: dom_map_of_conv_image_fst)
  qed
  show "map fst (od_of (xs @ xs)) = map fst (od_of xs)"
    unfolding od_of_def od_update_append by (rule keys_od_update_known [OF sub])
  have "m ++ m = m" for m :: "'a \<rightharpoonup> 'b"
    by (rule ext) (simp add: map_add_def split: option.splits)
  then show "map_of (od_of (xs @ xs)) = map_of (od_of xs)"
    by (simp add: od_of_def map_of_od_update)
qed

lemma load_data_twice: "load_data (files @ files) = load_data files"
  by (simp add: load_data_flat od_of_twice)

lemma dedup_snoc:
  "dedup seen (xs @ [x]) =
     dedup seen xs @ (if key_suffix (fst x) \<in> set seen \<union> (key_suffix \<circ> fst) ` set xs then [] else [x])"
proof (induction xs arbitrary: seen)
  case Nil
  then show ?case by (cases x) (simp add: Let_def)
next
  case (Cons kv xs)
  obtain k v where kv: "kv = (k, v)" by (cases kv)
  show ?case
    using Cons.IH [of seen] Cons.IH [of "seen @ [key_suffix k]"]
    by (auto simp: kv Let_def)
qed

lemma first_of_suffix_snoc_old:
  "i < length xs \<Longrightarrow> first_of_suffix (xs @ [x]) i = first_of_suffix xs i"
  by (simp add: first_of_suffix_def list_all_iff nth_append)

lemma first_of_suffix_snoc_new:
  "first_of_suffix (xs @ [x]) (length xs) \<longleftrightarrow> key_suffix (fst x) \<notin> (key_suffix \<circ> fst) ` set xs"
proof -
  have "first_of_suffix (xs @ [x]) (length xs)
        \<longleftrightarrow> (\<forall>j < length xs. key_suffix (fst (xs ! j)) \<noteq> key_suffix (fst x))"
    by (auto simp: first_of_suffix_def list_all_iff nth_append)
  also have "\<dots> \<longleftrightarrow> (\<forall>y \<in> set xs. key_suffix (fst y) \<noteq> key_suffix (fst x))"
    by (metis in_set_conv_nth)
  finally have eq: "first_of_suffix (xs @ [x]) (length xs)
        \<longleftrightarrow> (\<forall>y \<in> set xs. key_suffix (fst y) \<noteq> key_suffix (fst x))" .
  show ?thesis unfolding eq image_iff comp_def by metis
qed

lemma dedup_first_wins: "dedup [] d = first_wins d"
proof (induction d rule: rev_induct)
  case Nil
  then show ?case by (simp add: first_wins_def)
next
  case (snoc x xs)
  have old: "filter (first_of_suffix (xs @ [x])) [0 ..< length xs]
             = filter (first_of_suffix xs) [0 ..< length xs]"
    by (rule filter_cong) (simp_all add: first_of_suffix_snoc_old)
  have nth_old: "map (\<lambda>i. (xs @ [x]) ! i) (filter (first_of_suffix xs) [0 ..< length xs])
             = map (\<lambda>i. xs ! i) (filter (first_of_suffix xs) [0 ..< length xs])"
    by (rule map_cong) (simp_all add: nth_append)
  have "first_wins (xs @ [x]) =
          first_wins xs @ (if first_of_suffix (xs @ [x]) (length xs) then [x] else [])"
    by (simp add: first_wins_def old nth_old)
  then show ?case
    by (simp add: dedup_snoc snoc.IH first_of_suffix_snoc_new)
qed

lemma dedup_known_suffixes:
  "(\<And>kv. kv \<in> set new \<Longrightarrow> key_suffix (fst kv) \<in> (key_suffix \<circ> fst) ` set d) \<Longrightarrow>
   dedup [] (d @ new) = dedup [] d"
proof (induction new rule: rev_induct)
  case Nil
  then show ?case by simp
next
  case (snoc x xs)
  have "dedup [] (d @ xs) = dedup [] d" using snoc.prems by (intro snoc.IH) simp
  moreover have "key_suffix (fst x) \<in> (key_suffix \<circ> fst) ` set (d @ xs)"
    using snoc.prems [of x] by auto
  ultimately show ?case using dedup_snoc [of "[]" "d @ xs" x] by simp
qed

lemma update_append_fresh:
  "k \<notin> fst ` set d \<Longrightarrow> AList.update k v (d @ new) = d @ AList.update k v new"
  by (induction d) auto

lemma od_update_fresh:
  assumes "\<And>kv. kv \<in> set extra \<Longrightarrow> fst kv \<notin> fst ` set d \<and> P (fst kv)"
  shows "\<exists>new. od_update d extra = d @ new \<and> (\<forall>kv \<in> set new. P (fst kv))"
  using assms
proof (induction extra rule: rev_induct)
  case Nil
  then show ?case by (simp add: od_update_def)
next
  case (snoc x xs)
  obtain k v where x: "x = (k, v)" by (cases x)
  from snoc.IH obtain new where new: "od_update d xs = d @ new" "\<forall>kv \<in> set new. P (fst kv)"
    using snoc.prems by auto
  have k: "k \<notin> fst ` set d" "P k" using snoc.prems [of x] by (simp_all add: x)
  have "od_update d (xs @ [x]) = AList.update k v (d @ new)"
    by (simp add: od_update_append new(1) [symmetric]) (simp add: od_update_def x)
  also have "\<dots> = d @ AList.update k v new" by (rule update_append_fresh [OF k(1)])
  finally have "od_update d (xs @ [x]) = d @ AList.update k v new" .
  moreover have "\<forall>kv \<in> set (AList.update k v new). P (fst kv)"
    using set_update_subset [of k v new] new(2) k(2) by auto
  ultimately show ?case by blast
qed

lemma load_data_append:
  "load_data (files @ extra) = od_update (load_data files) (concat (map ordered_load extra))"
  by (simp add: load_data_def load_data_fold)

lemma load_parameters_overlap:
  assumes "repeats_suffixes (load_data files) (concat (map ordered_load extra))"
  shows "load_parameters (files @ extra) self = load_parameters files self"
proof -
  let ?d = "load_data files" and ?E = "concat (map ordered_load extra)"
  have "\<And>kv. kv \<in> set ?E \<Longrightarrow> fst kv \<notin> fst ` set ?d
          \<and> key_suffix (fst kv) \<in> (key_suffix \<circ> fst) ` set ?d"
    using assms unfolding repeats_suffixes_def list_all_iff by (auto simp: comp_def)
  from od_update_fresh [of ?E ?d "\<lambda>k. key_suffix k \<in> (key_suffix \<circ> fst) ` set ?d", OF this]
  obtain new where new: "od_update ?d ?E = ?d @ new"
    "\<forall>kv \<in> set new. key_suffix (fst kv) \<in> (key_suffix \<circ> fst) ` set ?d"
    by blast
  have "dedup [] (load_data (files @ extra)) = dedup [] ?d"
    unfolding load_data_append new(1) using new(2) by (intro dedup_known_suffixes) simp
  then show ?thesis by (simp add: load_parameters_def)
qed

lemma update_known:
  "distinct (map fst d) \<Longrightarrow> k \<in> fst ` set d \<Longrightarrow>
   AList.update k v d = map (\<lambda>kv. if fst kv = k then (k, v) else kv) d"
proof (induction d)
  case Nil
  then show ?case by simp
next
  case (Cons a d)
  obtain k' v' where a: "a = (k', v')" by (cases a)
  show ?case
  proof (cases "k' = k")
    case True
    then have "k \<notin> fst ` set d" using Cons.prems by (simp add: a)
    then have "map (\<lambda>kv. if fst kv = k then (k, v) else kv) d = map (\<lambda>kv. kv) d"
      by (intro map_cong [OF refl]) auto
    then show ?thesis using True by (simp add: a)
  next
    case False
    then show ?thesis using Cons by (auto simp: a)
  qed
qed

lemma update_fresh: "k \<notin> fst ` set d \<Longrightarrow> AList.update k v d = d @ [(k, v)]"
  by (induction d) auto

lemma dedup_map: "(\<And>x. fst (g x) = fst x) \<Longrightarrow> dedup seen (map g d) = map g (dedup seen d)"
proof (induction d arbitrary: seen)
  case Nil
  then show ?case by simp
next
  case (Cons a d)
  obtain k v where a: "a = (k, v)" by (cases a)
  obtain k' v' where g: "g (k, v) = (k', v')" by (cases "g (k, v)")
  have k: "k' = k" using Cons.prems [of "(k, v)"] g by simp
  show ?case using Cons.IH [OF Cons.prems] by (simp add: a g k Let_def)
qed

lemma set_dedup_subset: "set (dedup seen d) \<subseteq> set d"
proof (induction d arbitrary: seen)
  case Nil
  then show ?case by simp
next
  case (Cons a d)
  obtain k v where a: "a = (k, v)" by (cases a)
  show ?case using Cons.IH [of seen] Cons.IH [of "seen @ [key_suffix k]"]
    by (auto simp: a Let_def)
qed

lemma keys_od_of: "fst ` set (od_of raw) = fst ` set raw"
proof -
  have "dom (map_of (od_of raw)) = dom (map_of (rev raw))"
    by (simp add: od_of_def map_of_od_update)
  then show ?thesis by (simp add: dom_map_of_conv_image_fst)
qed

lemma od_of_snoc: "od_of (raw @ [(k, v)]) = AList.update k v (od_of raw)"
  by (simp add: od_of_def od_update_def)

lemma dedup_od_of: "dedup [] (od_of raw) = map (with_last_content raw) (dedup [] raw)"
proof (induction raw rule: rev_induct)
  case Nil
  then show ?case by (simp add: od_of_def od_update_def)
next
  case (snoc x raw)
  obtain k v where x: "x = (k, v)" by (cases x)
  show ?case
  proof (cases "k \<in> fst ` set raw")
    case True
    let ?g = "\<lambda>kv. if fst kv = k then (k, v) else kv"
    have suf: "key_suffix k \<in> (key_suffix \<circ> fst) ` set raw" using True by auto
    have "dedup [] (od_of (raw @ [x])) = dedup [] (map ?g (od_of raw))"
      using True by (simp add: x od_of_snoc update_known [OF distinct_od_of] keys_od_of)
    also have "\<dots> = map ?g (dedup [] (od_of raw))" by (rule dedup_map) simp
    also have "\<dots> = map ?g (map (with_last_content raw) (dedup [] raw))" by (simp only: snoc.IH)
    also have "\<dots> = map (with_last_content (raw @ [x])) (dedup [] raw)"
      by (simp add: with_last_content_def x)
    also have "dedup [] raw = dedup [] (raw @ [x])" using suf by (simp add: dedup_snoc x)
    finally show ?thesis .
  next
    case False
    have same: "map (with_last_content (raw @ [x])) (dedup [] raw) = map (with_last_content raw) (dedup [] raw)"
    proof (rule map_cong [OF refl])
      fix kv assume "kv \<in> set (dedup [] raw)"
      then have "kv \<in> set raw" using set_dedup_subset by blast
      then have "fst kv \<noteq> k" using False by auto
      then show "with_last_content (raw @ [x]) kv = with_last_content raw kv"
        by (simp add: with_last_content_def x)
    qed
    have sufs: "(\<lambda>x. key_suffix (fst x)) ` set (od_of raw) = (\<lambda>x. key_suffix (fst x)) ` set raw"
      using keys_od_of [of raw] by (metis image_image)
    have "dedup [] (od_of (raw @ [x])) = dedup [] (od_of raw @ [(k, v)])"
      using False by (simp add: x od_of_snoc update_fresh keys_od_of)
    also have "\<dots> = dedup [] (od_of raw)
         @ (if key_suffix k \<in> (key_suffix \<circ> fst) ` set raw then [] else [(k, v)])"
      by (simp add: dedup_snoc sufs comp_def)
    finally have lhs: "dedup [] (od_of (raw @ [x])) = dedup [] (od_of raw)
         @ (if key_suffix k \<in> (key_suffix \<circ> fst) ` set raw then [] else [(k, v)])" .
    have lst: "with_last_content (raw @ [x]) (k, v) = (k, v)"
      by (simp add: with_last_content_def x)
    have rhs: "dedup [] (raw @ [x]) = dedup [] raw
         @ (if key_suffix k \<in> (key_suffix \<circ> fst) ` set raw then [] else [(k, v)])"
      by (simp add: dedup_snoc x)
    show ?thesis unfolding lhs rhs by (simp add: snoc.IH same lst)
  qed
qed

lemma insertion_order_set: "set (insertion_order known xs) = set known \<union> set xs"
  unfolding insertion_order_def by (induction xs arbitrary: known) auto

lemma keys_od_update:
  "map fst (od_update d xs) = insertion_order (map fst d) (map fst xs)"
  unfolding od_update_def insertion_order_def
proof (induction xs arbitrary: d)
  case Nil
  then show ?case by simp
next
  case (Cons kv xs)
  obtain k v where kv: "kv = (k, v)" by (cases kv)
  show ?case using Cons.IH [of "AList.update k v d"] by (simp add: kv update_keys)
qed

lemma insertion_order_snoc:
  "insertion_order known (xs @ [x]) =
     (if x \<in> set (insertion_order known xs) then insertion_order known xs
      else insertion_order known xs @ [x])"
  by (simp add: insertion_order_def)

lemma insertion_order_twice:
  "insertion_order known (insertion_order [] xs) = insertion_order known xs"
proof (induction xs rule: rev_induct)
  case Nil
  then show ?case by (simp add: insertion_order_def)
next
  case (snoc x xs)
  show ?case
  proof (cases "x \<in> set xs")
    case True
    then show ?thesis
      using snoc.IH by (simp add: insertion_order_snoc insertion_order_set)
  next
    case False
    then show ?thesis
      using snoc.IH by (simp add: insertion_order_snoc insertion_order_set)
  qed
qed

lemma od_update_od_of:
  assumes "distinct (map fst d)"
  shows "od_update d (od_of xs) = od_update d xs"
proof (rule alist_eqI)
  show "distinct (map fst (od_update d (od_of xs)))" by (rule distinct_od_update [OF assms])
  show "map fst (od_update d (od_of xs)) = map fst (od_update d xs)"
    by (simp add: keys_od_update od_of_def insertion_order_twice)
  have "map_of (rev (od_of xs)) = map_of (od_of xs)"
    by (rule map_of_inject_set [THEN iffD2]) (simp_all add: distinct_od_of rev_map [symmetric])
  then show "map_of (od_update d (od_of xs)) = map_of (od_update d xs)"
    by (simp add: map_of_od_update) (simp add: od_of_def map_of_od_update)
qed

lemma distinct_load_fold:
  "distinct (map fst d) \<Longrightarrow> distinct (map fst (fold (\<lambda>f d. od_update d (ordered_load f)) files d))"
  by (induction files arbitrary: d) (simp_all add: distinct_od_update)

lemma load_fold_raw:
  "distinct (map fst d) \<Longrightarrow>
   fold (\<lambda>f d. od_update d (ordered_load f)) files d = od_update d (raw_blocks files)"
proof (induction files arbitrary: d)
  case Nil
  then show ?case by (simp add: raw_blocks_def od_update_def)
next
  case (Cons f files)
  have step: "od_update d (ordered_load f) = od_update d (map (\<lambda>(k, kv). (k, od_of kv)) f)"
    unfolding ordered_load_def by (rule od_update_od_of [OF Cons.prems])
  have "distinct (map fst (od_update d (ordered_load f)))"
    by (rule distinct_od_update [OF Cons.prems])
  from Cons.IH [OF this] show ?case
    by (simp add: step raw_blocks_def od_update_append [symmetric])
qed

lemma load_data_raw: "load_data files = od_of (raw_blocks files)"
  by (simp add: load_data_def load_fold_raw od_of_def)

lemma entries_raw:
  "entries files = map (with_last_content (raw_blocks files)) (first_wins (raw_blocks files))"
  by (simp only: entries_def load_data_raw dedup_od_of)
     (simp only: dedup_first_wins)

lemma with_last_content_distinct:
  assumes "distinct (map fst raw)" and "kv \<in> set raw"
  shows "with_last_content raw kv = kv"
proof -
  have "distinct (map fst (rev raw))" using assms(1) by (simp add: rev_map [symmetric])
  moreover have "(fst kv, snd kv) \<in> set (rev raw)" using assms(2) by simp
  ultimately have "map_of (rev raw) (fst kv) = Some (snd kv)" by (rule map_of_is_SomeI)
  then show ?thesis by (simp add: with_last_content_def)
qed

lemma entries_distinct:
  assumes "distinct (map fst (raw_blocks files))"
  shows "entries files = first_wins (raw_blocks files)"
proof -
  have "map (with_last_content (raw_blocks files)) (first_wins (raw_blocks files))
        = map (\<lambda>kv. kv) (first_wins (raw_blocks files))"
  proof (rule map_cong [OF refl])
    fix kv assume "kv \<in> set (first_wins (raw_blocks files))"
    then have "kv \<in> set (raw_blocks files)"
      using set_dedup_subset [of "[]" "raw_blocks files"] by (auto simp: dedup_first_wins)
    then show "with_last_content (raw_blocks files) kv = kv"
      by (rule with_last_content_distinct [OF assms])
  qed
  then show ?thesis by (simp add: entries_raw)
qed

text \<open>
  Claim C7, amended. The blocks that are ingested are the raw blocks that are the first with
  their key suffix (the key without its first component), in their order, each under its
  own key and with the content of the last raw block that has the same whole key: the
  loader and the \<^verbatim>\<open>dict.update\<close> of line 47 keep the place of a key and replace its
  content. When no whole key occurs twice among the raw blocks, those are the first blocks
  themselves. Lines 50-56 by themselves keep the first entry per suffix of the merged
  dictionary. Ingesting a list of files followed by the same list again gives the same
  result as ingesting the list once, whatever the database ingested into; and so does
  ingesting it followed by files whose entries have new keys with suffixes that the list
  already has, as a copy under other insertion numbers does.
\<close>

theorem dedup_first_key_idempotent:
  "entries files = map (with_last_content (raw_blocks files)) (first_wins (raw_blocks files))
   \<and> load_parameters files self = ingest_loop (entry_keys files) 0 (entries files) self
   \<and> (distinct (map fst (raw_blocks files)) \<longrightarrow> entries files = first_wins (raw_blocks files))
   \<and> dedup [] d = map (\<lambda>i. d ! i) (filter (first_of_suffix d) [0 ..< length d])
   \<and> load_parameters (files @ files) self = load_parameters files self
   \<and> (repeats_suffixes (load_data files) (concat (map ordered_load extra)) \<longrightarrow>
        load_parameters (files @ extra) self = load_parameters files self)"
proof (intro conjI impI)
  show "entries files = map (with_last_content (raw_blocks files)) (first_wins (raw_blocks files))"
    by (rule entries_raw)
  show "load_parameters files self = ingest_loop (entry_keys files) 0 (entries files) self"
    by (simp add: load_parameters_def entries_def entry_keys_def Let_def)
  show "dedup [] d = map (\<lambda>i. d ! i) (filter (first_of_suffix d) [0 ..< length d])"
    using dedup_first_wins [of d] by (simp add: first_wins_def)
  show "load_parameters (files @ files) self = load_parameters files self"
    by (simp add: load_parameters_def load_data_twice)
next
  assume "distinct (map fst (raw_blocks files))"
  then show "entries files = first_wins (raw_blocks files)" by (rule entries_distinct)
next
  assume "repeats_suffixes (load_data files) (concat (map ordered_load extra))"
  then show "load_parameters (files @ extra) self = load_parameters files self"
    by (rule load_parameters_overlap)
qed

text \<open>
  Claim C7 as stated fails: the key \<^verbatim>\<open>1_aaa\<close> comes in two files with different contents.
  The first of the two raw blocks is the one with the attribute \<^verbatim>\<open>n\<close>; the block ingested
  has the content of the second, and the table gets the column \<^verbatim>\<open>q\<close>.
\<close>

theorem first_content_kept_counterexample:
  "raw_blocks overwrite_files = [(''1_aaa'', step_A), (''1_aaa'', step_A2)]
   \<and> first_wins (raw_blocks overwrite_files) = [(''1_aaa'', step_A)]
   \<and> entries overwrite_files = [(''1_aaa'', step_A2)]
   \<and> entries overwrite_files \<noteq> first_wins (raw_blocks overwrite_files)
   \<and> load_parameters overwrite_files (ResultDB ''db'') = Inr overwrite_db
   \<and> load_parameters overwrite_files (ResultDB ''db'')
      \<noteq> load_parameters [[(''1_aaa'', step_A)]] (ResultDB ''db'')"
  by code_simp

theorem dedup_first_key_idempotent_witness:
  "distinct (map fst (raw_blocks (example_files @ renumbered_files)))
   \<and> entries (example_files @ renumbered_files)
       = first_wins (raw_blocks (example_files @ renumbered_files))
   \<and> entries (example_files @ renumbered_files) = [(''1_aaa'', step_A), (''2_bbb_aaa'', step_B)]
   \<and> entries overwrite_files
       = map (with_last_content (raw_blocks overwrite_files)) (first_wins (raw_blocks overwrite_files))
   \<and> map (with_last_content (raw_blocks overwrite_files)) (first_wins (raw_blocks overwrite_files))
       = [(''1_aaa'', step_A2)]
   \<and> repeats_suffixes (load_data example_files) (concat (map ordered_load renumbered_files))
   \<and> load_parameters (example_files @ renumbered_files) (ResultDB ''db'') = Inr example_db
   \<and> load_parameters example_files (ResultDB ''db'') = Inr example_db"
proof -
  note both = dedup_first_key_idempotent [where files = "example_files @ renumbered_files"]
  note over = dedup_first_key_idempotent [where files = overwrite_files]
  note copy = dedup_first_key_idempotent [where files = example_files and extra = renumbered_files
      and self = "ResultDB ''db''"]
  have dist: "distinct (map fst (raw_blocks (example_files @ renumbered_files)))" by code_simp
  from both [THEN conjunct2, THEN conjunct2, THEN conjunct1, rule_format, OF dist]
  have fw: "entries (example_files @ renumbered_files)
       = first_wins (raw_blocks (example_files @ renumbered_files))" .
  have fwv: "first_wins (raw_blocks (example_files @ renumbered_files))
       = [(''1_aaa'', step_A), (''2_bbb_aaa'', step_B)]" by code_simp
  from over [THEN conjunct1]
  have lc: "entries overwrite_files
       = map (with_last_content (raw_blocks overwrite_files)) (first_wins (raw_blocks overwrite_files))" .
  have lcv: "map (with_last_content (raw_blocks overwrite_files)) (first_wins (raw_blocks overwrite_files))
       = [(''1_aaa'', step_A2)]" by code_simp
  have h: "repeats_suffixes (load_data example_files) (concat (map ordered_load renumbered_files))"
    by code_simp
  have e: "load_parameters example_files (ResultDB ''db'') = Inr example_db" by code_simp
  from copy [THEN conjunct2, THEN conjunct2, THEN conjunct2, THEN conjunct2, THEN conjunct2,
      rule_format, OF h] e
  have "load_parameters (example_files @ renumbered_files) (ResultDB ''db'') = Inr example_db"
    by simp
  then show ?thesis using dist fw fwv lc lcv h e by simp
qed

section \<open>Where the rows of a table come from\<close>

lemma load_parameters_entries:
  "load_parameters files self = ingest_loop (entry_keys files) 0 (entries files) self"
  by (simp add: load_parameters_def entries_def entry_keys_def Let_def)

lemma sdi_Inr:
  "search_dependent_index ks ii x = Inr n \<Longrightarrow>
   \<exists>j < length ks. n = ii + j + 1 \<and> entry_return (ks ! j) = Some x
      \<and> (\<forall>j' < j. entry_return (ks ! j') \<noteq> Some x)"
proof (induction ks arbitrary: ii)
  case Nil
  then show ?case by simp
next
  case (Cons kk kks)
  from Cons.prems obtain p r rest where parts: "split_on CHR ''_'' kk = p # r # rest"
    by (auto split: list.splits)
  show ?case
  proof (cases "r = x")
    case True
    then have "n = ii + 1" using Cons.prems parts by simp
    moreover have "entry_return kk = Some x" using parts True by (simp add: entry_return_def)
    ultimately show ?thesis by (intro exI [of _ 0]) simp
  next
    case False
    then have "search_dependent_index kks (ii + 1) x = Inr n" using Cons.prems parts by simp
    from Cons.IH [OF this] obtain j where j: "j < length kks" "n = ii + 1 + j + 1"
      "entry_return (kks ! j) = Some x" "\<forall>j' < j. entry_return (kks ! j') \<noteq> Some x"
      by blast
    have kk: "entry_return kk \<noteq> Some x" using parts False by (simp add: entry_return_def)
    have "\<forall>j' < Suc j. entry_return ((kk # kks) ! j') \<noteq> Some x"
      using j(4) kk by (auto simp: less_Suc_eq_0_disj)
    then show ?thesis using j by (intro exI [of _ "Suc j"]) simp
  qed
qed

lemma sdi_no_match:
  "list_all (\<lambda>k. entry_return k \<noteq> None \<and> entry_return k \<noteq> Some x) ks \<Longrightarrow>
   search_dependent_index ks ii x = Inl (not_found_output x)"
proof (induction ks arbitrary: ii)
  case Nil
  then show ?case by (simp add: not_found_output_def)
next
  case (Cons kk kks)
  then show ?case
    by (auto simp: entry_return_def split: list.splits)
qed

lemma collect_meta_groups:
  assumes "collect_meta idx v0 s = Inr (tbl, v, tb, s2)"
  shows "tb = (case map_of (data s) tbl of None \<Rightarrow> new_table v | Some tb0 \<Rightarrow> tb0)"
  using collect_meta_Inr(6,7) [OF assms] by (auto split: option.splits)

lemma append_record_cols:
  assumes "append_record ks idx k (tbl, v, tb, s2) = Inr s'"
  shows "\<exists>r dep a. entry_return k = Some r \<and> resolved_dep ks k dep \<and>
           s' = s2\<lparr>data := AList.update tbl
                    \<lparr>step_id = step_id tb @ [idx + 1], return = return tb @ [r],
                     depends = depends tb @ [dep], attrs = a\<rparr> (data s2)\<rparr>"
  using assms
  by (auto simp: append_record_def Let_def entry_return_def resolved_dep_def entry_depends_def
      split: list.splits sum.splits if_splits)

lemma ingest_record_cols:
  assumes "ingest_record ks idx (k, v0) s = Inr s'"
  shows "\<exists>tbl r dep a. map_of v0 ''exec'' = Some tbl \<and> entry_return k = Some r \<and> resolved_dep ks k dep \<and>
           data s' = AList.update tbl
                    \<lparr>step_id = step_id (case map_of (data s) tbl of None \<Rightarrow> new_table (rename_keys v0) | Some tb0 \<Rightarrow> tb0) @ [idx + 1],
                     return = return (case map_of (data s) tbl of None \<Rightarrow> new_table (rename_keys v0) | Some tb0 \<Rightarrow> tb0) @ [r],
                     depends = depends (case map_of (data s) tbl of None \<Rightarrow> new_table (rename_keys v0) | Some tb0 \<Rightarrow> tb0) @ [dep], attrs = a\<rparr> (data s)"
proof -
  obtain m where m: "collect_meta idx v0 s = Inr m" and ar: "append_record ks idx k m = Inr s'"
    using assms(1) by (auto simp: ingest_record_def split: sum.splits)
  obtain tbl v tb s2 where mm: "m = (tbl, v, tb, s2)" by (cases m)
  note cm = collect_meta_Inr [OF m [unfolded mm]]
  have tb: "tb = (case map_of (data s) tbl of None \<Rightarrow> new_table (rename_keys v0) | Some tb0 \<Rightarrow> tb0)"
    using collect_meta_groups [OF m [unfolded mm]] cm(2) by (auto split: option.splits)
  from append_record_cols [OF ar [unfolded mm]] obtain r dep a where
    "entry_return k = Some r" "resolved_dep ks k dep"
    "s' = s2\<lparr>data := AList.update tbl
                    \<lparr>step_id = step_id tb @ [idx + 1], return = return tb @ [r],
                     depends = depends tb @ [dep], attrs = a\<rparr> (data s2)\<rparr>"
    by blast
  then show ?thesis using cm(1) cm(3) tb by auto
qed

lemma rows_from_new_table: "rows_from ks m (new_table v)"
  by (simp add: rows_from_def new_table_def)

lemma rows_from_mono: "rows_from ks m tb \<Longrightarrow> m \<le> m' \<Longrightarrow> rows_from ks m' tb"
  unfolding rows_from_def by (meson less_le_trans)

lemma rows_from_append:
  assumes "rows_from ks m tb" and "entry_row ks i sid r dep" and "i < m"
  shows "rows_from ks m \<lparr>step_id = step_id tb @ [sid], return = return tb @ [r],
                          depends = depends tb @ [dep], attrs = a\<rparr>"
proof -
  have len: "length (return tb) = length (step_id tb)" "length (depends tb) = length (step_id tb)"
    using assms(1) by (simp_all add: rows_from_def)
  have "\<exists>i < m. entry_row ks i ((step_id tb @ [sid]) ! p) ((return tb @ [r]) ! p)
                   ((depends tb @ [dep]) ! p)"
    if "p < Suc (length (step_id tb))" for p
  proof (cases "p < length (step_id tb)")
    case True
    then show ?thesis using assms(1) len by (simp add: rows_from_def nth_append)
  next
    case False
    then have "p = length (step_id tb)" using that by simp
    then show ?thesis using assms(2,3) len by (auto simp: nth_append)
  qed
  then show ?thesis using len by (simp add: rows_from_def)
qed

lemma ingest_loop_rows_from:
  assumes "ingest_loop ks idx items s = Inr s'" and "map fst items = drop idx ks"
    and "\<And>t tb. map_of (data s) t = Some tb \<Longrightarrow> rows_from ks idx tb"
  shows "map_of (data s') t = Some tb \<Longrightarrow> rows_from ks (idx + length items) tb"
  using assms
proof (induction items arbitrary: idx s)
  case Nil
  then show ?case by simp
next
  case (Cons kv items)
  obtain k v0 where kv: "kv = (k, v0)" by (cases kv)
  obtain s1 where rec: "ingest_record ks idx (k, v0) s = Inr s1"
    and loop: "ingest_loop ks (idx + 1) items s1 = Inr s'"
    using Cons.prems(2) by (auto simp: kv split: sum.splits)
  have idx: "idx < length ks" using Cons.prems(3) by (cases "idx < length ks") auto
  have k: "k = ks ! idx" and rest: "map fst items = drop (idx + 1) ks"
    using Cons.prems(3) idx by (auto simp: kv Cons_nth_drop_Suc [symmetric])
  from ingest_record_cols [OF rec] obtain tbl r dep a where
    r: "entry_return k = Some r" and dep: "resolved_dep ks k dep" and
    ds: "data s1 = AList.update tbl
          \<lparr>step_id = step_id (case map_of (data s) tbl of None \<Rightarrow> new_table (rename_keys v0) | Some tb0 \<Rightarrow> tb0) @ [idx + 1],
           return = return (case map_of (data s) tbl of None \<Rightarrow> new_table (rename_keys v0) | Some tb0 \<Rightarrow> tb0) @ [r],
           depends = depends (case map_of (data s) tbl of None \<Rightarrow> new_table (rename_keys v0) | Some tb0 \<Rightarrow> tb0) @ [dep],
           attrs = a\<rparr> (data s)"
    by blast
  let ?tb = "case map_of (data s) tbl of None \<Rightarrow> new_table (rename_keys v0) | Some tb0 \<Rightarrow> tb0"
  have old: "rows_from ks (idx + 1) ?tb"
    using Cons.prems(4) [of tbl] rows_from_new_table rows_from_mono [of ks idx _ "idx + 1"]
    by (auto split: option.splits)
  have row: "entry_row ks idx (idx + 1) r dep" using r dep k by (simp add: entry_row_def)
  have inv1: "rows_from ks (idx + 1) tb1" if "map_of (data s1) t1 = Some tb1" for t1 tb1
  proof (cases "t1 = tbl")
    case True
    then have "tb1 = \<lparr>step_id = step_id ?tb @ [idx + 1], return = return ?tb @ [r],
                       depends = depends ?tb @ [dep], attrs = a\<rparr>"
      using that by (simp add: ds update_conv')
    then show ?thesis using rows_from_append [OF old row] by simp
  next
    case False
    then have "map_of (data s) t1 = Some tb1" using that by (simp add: ds update_conv')
    then show ?thesis using Cons.prems(4) rows_from_mono [of ks idx tb1 "idx + 1"] by simp
  qed
  from Cons.IH [OF Cons.prems(1) loop rest inv1] show ?case by simp
qed

lemma load_parameters_rows_from:
  assumes "load_parameters files (ResultDB db_name) = Inr self"
    and "map_of (data self) t = Some tb"
  shows "rows_from (entry_keys files)
           (length (entries files)) tb"
proof -
  have loop: "ingest_loop (entry_keys files) 0 (entries files) (ResultDB db_name) = Inr self"
    using assms(1) by (simp add: load_parameters_entries)
  from ingest_loop_rows_from [OF loop _ _ assms(2)] show ?thesis
    by (simp add: ResultDB_def entry_keys_def)
qed

lemma depends_origin:
  assumes "load_parameters files (ResultDB db_name) = Inr self"
    and "map_of (data self) t = Some tb" and "p < length (depends tb)"
    and "depends tb ! p = Some n"
  shows "\<exists>i j x. i < length (entries files) \<and> j < length (entries files)
           \<and> step_id tb ! p = i + 1 \<and> n = j + 1
           \<and> entry_depends (entry_keys files ! i) = Some x
           \<and> entry_return (entry_keys files ! j) = Some x
           \<and> (\<forall>j' < j. entry_return (entry_keys files ! j') \<noteq> Some x)
           \<and> (n < step_id tb ! p \<longleftrightarrow>
                (\<exists>j' < i. entry_return (entry_keys files ! j') = Some x))"
proof -
  let ?d = "entries files"
  let ?ks = "entry_keys files"
  have len: "length ?ks = length ?d" by (simp add: entry_keys_def)
  have rf: "rows_from ?ks (length ?d) tb" by (rule load_parameters_rows_from [OF assms(1,2)])
  then have p: "p < length (step_id tb)" using assms(3) by (simp add: rows_from_def)
  with rf obtain i where i: "i < length ?d" "step_id tb ! p = i + 1"
    "resolved_dep ?ks (?ks ! i) (depends tb ! p)"
    by (auto simp: rows_from_def entry_row_def)
  from i(3) assms(4) obtain x where x: "entry_depends (?ks ! i) = Some x"
    and sdi: "search_dependent_index ?ks 0 x = Inr n"
    by (auto simp: resolved_dep_def split: option.splits sum.splits)
  from sdi_Inr [OF sdi] obtain j where j: "j < length ?d" "n = j + 1"
    "entry_return (?ks ! j) = Some x" "\<forall>j' < j. entry_return (?ks ! j') \<noteq> Some x"
    using len by auto
  have "n < step_id tb ! p \<longleftrightarrow> (\<exists>j' < i. entry_return (?ks ! j') = Some x)"
  proof
    assume "n < step_id tb ! p"
    then have "j < i" using i(2) j(2) by simp
    then show "\<exists>j' < i. entry_return (?ks ! j') = Some x" using j(3) by blast
  next
    assume "\<exists>j' < i. entry_return (?ks ! j') = Some x"
    then obtain j' where "j' < i" "entry_return (?ks ! j') = Some x" by blast
    then have "j \<le> j'" using j(4) by (meson not_le)
    then show "n < step_id tb ! p" using \<open>j' < i\<close> i(2) j(2) by simp
  qed
  then show ?thesis using i(1,2) j x by (intro exI [of _ i] exI [of _ j] exI [of _ x]) simp
qed

text \<open>
  Claim C8, amended. After a successful ingestion into a fresh database, a dependency \<open>n\<close>
  in the row of step \<open>i + 1\<close> is the step id \<open>j + 1\<close> of the first entry, among all entries,
  whose return id is the output the key of entry \<open>i\<close> refers to. It is smaller than the
  step id of the row exactly when some entry before entry \<open>i\<close> returns that output.
\<close>

theorem depends_resolved_to_first_match:
  assumes "load_parameters files (ResultDB db_name) = Inr self"
    and "map_of (data self) t = Some tb" and "p < length (depends tb)"
    and "depends tb ! p = Some n"
  shows "\<exists>i j x. i < length (entries files) \<and> j < length (entries files)
           \<and> step_id tb ! p = i + 1 \<and> n = j + 1
           \<and> entry_depends (entry_keys files ! i) = Some x
           \<and> entry_return (entry_keys files ! j) = Some x
           \<and> (\<forall>j' < j. entry_return (entry_keys files ! j') \<noteq> Some x)
           \<and> (n < step_id tb ! p \<longleftrightarrow>
                (\<exists>j' < i. entry_return (entry_keys files ! j') = Some x))"
  by (rule depends_origin [OF assms])

text \<open>
  Claim C8 as stated fails: the key \<^verbatim>\<open>1_aaa_bbb\<close> refers to the output of the entry after
  it, and step 1 is ingested with the dependency 2.
\<close>

theorem depends_not_decreasing_counterexample:
  "load_parameters forward_files (ResultDB ''db'') = Inr forward_db
   \<and> map_of (data forward_db) (YStr ''A'')
       = Some \<lparr>step_id = [1], return = [''aaa''], depends = [Some 2], attrs = [(''n'', [YInt 100])]\<rparr>
   \<and> \<not> depends_decrease forward_db"
  by code_simp

theorem depends_resolved_to_first_match_witness:
  "load_parameters example_files (ResultDB ''db'') = Inr example_db
   \<and> map_of (data example_db) (YStr ''B'')
       = Some \<lparr>step_id = [2], return = [''bbb''], depends = [Some 1], attrs = [(''m'', [YInt 3])]\<rparr>
   \<and> (\<exists>i j x. i < length (entries example_files)
           \<and> j < length (entries example_files)
           \<and> (2::nat) = i + 1 \<and> (1::nat) = j + 1
           \<and> entry_depends (entry_keys example_files ! i) = Some x
           \<and> entry_return (entry_keys example_files ! j) = Some x)"
proof -
  let ?tb = "\<lparr>step_id = [2], return = [''bbb''], depends = [Some 1], attrs = [(''m'', [YInt 3])]\<rparr>"
  have lp: "load_parameters example_files (ResultDB ''db'') = Inr example_db" by code_simp
  have look: "map_of (data example_db) (YStr ''B'') = Some ?tb" by code_simp
  have p: "0 < length (depends ?tb)" and d: "depends ?tb ! 0 = Some 1" by simp_all
  from depends_resolved_to_first_match [OF lp look p d]
  obtain i j x where "i < length (entries example_files)"
    "j < length (entries example_files)"
    "step_id ?tb ! 0 = i + 1" "(1::nat) = j + 1"
    "entry_depends (entry_keys example_files ! i) = Some x"
    "entry_return (entry_keys example_files ! j) = Some x"
    by blast
  moreover from this have "(2::nat) = i + 1" by simp
  ultimately have "\<exists>i j x. i < length (entries example_files)
           \<and> j < length (entries example_files)
           \<and> (2::nat) = i + 1 \<and> (1::nat) = j + 1
           \<and> entry_depends (entry_keys example_files ! i) = Some x
           \<and> entry_return (entry_keys example_files ! j) = Some x"
    by blast
  then show ?thesis using lp look by blast
qed

section \<open>References that cannot be resolved\<close>

lemma ingest_loop_append:
  "ingest_loop ks idx (xs @ ys) s =
     (case ingest_loop ks idx xs s of
        Inl e \<Rightarrow> Inl e
      | Inr s1 \<Rightarrow> ingest_loop ks (idx + length xs) ys s1)"
  by (induction xs arbitrary: idx s) (auto split: sum.splits)

lemma entry_depends_parts:
  assumes "entry_depends k = Some x"
  shows "\<exists>p r rest. split_on CHR ''_'' k = p # r # rest \<and> length (split_on CHR ''_'' k) > 2
           \<and> last (split_on CHR ''_'' k) = x"
proof -
  have len: "length (split_on CHR ''_'' k) > 2" and x: "last (split_on CHR ''_'' k) = x"
    using assms by (auto simp: entry_depends_def Let_def split: if_splits)
  then obtain p r rest where "split_on CHR ''_'' k = p # r # rest"
    by (cases "split_on CHR ''_'' k" rule: list.exhaust; simp)
       (metis length_0_conv list.exhaust not_less_zero)
  then show ?thesis using len x by blast
qed

lemma append_record_dangling:
  assumes "entry_depends k = Some x"
    and "list_all (\<lambda>k. entry_return k \<noteq> None \<and> entry_return k \<noteq> Some x) ks"
  shows "append_record ks idx k m = Inl (not_found_output x)"
proof -
  obtain p r rest where parts: "split_on CHR ''_'' k = p # r # rest"
    "length (split_on CHR ''_'' k) > 2" "last (split_on CHR ''_'' k) = x"
    using entry_depends_parts [OF assms(1)] by blast
  have "search_dependent_index ks 0 x = Inl (not_found_output x)"
    by (rule sdi_no_match [OF assms(2)])
  then show ?thesis using parts
    by (cases m) (simp add: append_record_def Let_def)
qed

lemma ingest_loop_resolved:
  "ingest_loop ks idx items s = Inr s' \<Longrightarrow> kv \<in> set items \<Longrightarrow> \<exists>dep. resolved_dep ks (fst kv) dep"
proof (induction items arbitrary: idx s)
  case Nil
  then show ?case by simp
next
  case (Cons a items)
  obtain k v0 where a: "a = (k, v0)" by (cases a)
  obtain s1 where rec: "ingest_record ks idx (k, v0) s = Inr s1"
    and loop: "ingest_loop ks (idx + 1) items s1 = Inr s'"
    using Cons.prems(1) by (auto simp: a split: sum.splits)
  show ?case
  proof (cases "kv = a")
    case True
    then show ?thesis using ingest_record_cols [OF rec] by (auto simp: a)
  next
    case False
    then show ?thesis using Cons.IH [OF loop] Cons.prems(2) by simp
  qed
qed

lemma dangling_fails:
  assumes "i < length (entries files)" and "entry_depends (entry_keys files ! i) = Some x"
    and "list_all (\<lambda>k. entry_return k \<noteq> Some x) (entry_keys files)"
  shows "\<exists>e. load_parameters files self = Inl e"
proof (cases "load_parameters files self")
  case (Inl e)
  then show ?thesis by blast
next
  case (Inr s')
  then have loop: "ingest_loop (entry_keys files) 0 (entries files) self = Inr s'"
    by (simp add: load_parameters_entries)
  have mem: "entries files ! i \<in> set (entries files)" using assms(1) by simp
  have k: "fst (entries files ! i) = entry_keys files ! i"
    using assms(1) by (simp add: entry_keys_def)
  from ingest_loop_resolved [OF loop mem] k assms(2)
  obtain n where "search_dependent_index (entry_keys files) 0 x = Inr n"
    by (cases "search_dependent_index (entry_keys files) 0 x") (auto simp: resolved_dep_def)
  from sdi_Inr [OF this] obtain j where "j < length (entry_keys files)"
    "entry_return (entry_keys files ! j) = Some x" by auto
  then have False using assms(3) by (auto simp: list_all_iff)
  then show ?thesis ..
qed

lemma dangling_error:
  assumes i: "i < length (entries files)"
    and pre: "ingest_loop (entry_keys files) 0 (take i (entries files)) self = Inr s"
    and meta: "collect_meta i (snd (entries files ! i)) s = Inr m"
    and dep: "entry_depends (entry_keys files ! i) = Some x"
    and nomatch: "list_all (\<lambda>k. entry_return k \<noteq> None \<and> entry_return k \<noteq> Some x) (entry_keys files)"
  shows "load_parameters files self = Inl (not_found_output x)"
proof -
  have split: "entries files = take i (entries files) @ entries files ! i # drop (Suc i) (entries files)"
    using i by (simp add: id_take_nth_drop)
  have k: "fst (entries files ! i) = entry_keys files ! i"
    using i by (simp add: entry_keys_def)
  have rec: "ingest_record (entry_keys files) i (entries files ! i) s = Inl (not_found_output x)"
    using meta append_record_dangling [OF dep nomatch] k
    by (simp add: ingest_record_def)
  have "ingest_loop (entry_keys files) 0
          (take i (entries files) @ entries files ! i # drop (Suc i) (entries files)) self
        = Inl (not_found_output x)"
    using pre rec i by (simp add: ingest_loop_append)
  then show ?thesis using split by (simp add: load_parameters_entries)
qed

lemma list_index_Some: "list_index xs x = Some i \<Longrightarrow> i < length xs \<and> xs ! i = x"
proof (induction xs arbitrary: i)
  case Nil
  then show ?case by simp
next
  case (Cons y ys)
  then show ?case by (cases "y = x") auto
qed

lemma list_index_None: "list_index xs x = None \<longleftrightarrow> x \<notin> set xs"
  by (induction xs) auto

lemma find_step_unlocated:
  "(case dropWhile (\<lambda>p. d \<notin> set (step_id (snd p))) dat of [] \<Rightarrow> True | p # _ \<Rightarrow> fst p = YNone) \<Longrightarrow>
   find_step dat d = None \<or> (\<exists>i. find_step dat d = Some (YNone, i))"
proof (induction dat)
  case Nil
  then show ?case by simp
next
  case (Cons a dat)
  obtain k tb where a: "a = (k, tb)" by (cases a)
  show ?case
  proof (cases "d \<in> set (step_id tb)")
    case True
    then have k: "k = YNone" using Cons.prems by (simp add: a)
    from True obtain i where "list_index (step_id tb) d = Some i"
      using list_index_None [of "step_id tb" d] by (cases "list_index (step_id tb) d") auto
    then show ?thesis by (simp add: a k)
  next
    case False
    then have "list_index (step_id tb) d = None" by (simp add: list_index_None)
    then show ?thesis using Cons False by (simp add: a)
  qed
qed

lemma unlocated_no_table:
  assumes "list_all (\<lambda>p. d \<notin> set (step_id (snd p))) (data self)"
  shows "unlocated self d"
proof -
  have none: "dropWhile (\<lambda>p. d \<notin> set (step_id (snd p))) (data self) = []"
    using assms by (simp add: list_all_iff)
  show ?thesis unfolding unlocated_def none by simp
qed

lemma get_sequence_unlocated:
  assumes "map_of (data self) step = Some tb" and "idx < length (depends tb)"
    and "depends tb ! idx = Some d" and "unlocated self d"
  shows "get_sequence (Suc limit) self step sid idx res = Inl (not_found_step d)"
proof (cases "find_step (data self) d")
  case None
  then show ?thesis using assms(1-3) by (simp add: not_found_step_def)
next
  case (Some y)
  then obtain i where "find_step (data self) d = Some (YNone, i)"
    using find_step_unlocated [OF assms(4) [unfolded unlocated_def]] by auto
  then show ?thesis using assms(1-3) by (simp add: not_found_step_def)
qed

lemma get_sequence_meets:
  "meets_dangling n self (step, idx) d \<Longrightarrow>
   get_sequence limit self step sid idx res
     = Inl (if n < limit then not_found_step d else RecursionError)"
proof (induction n arbitrary: step idx sid res limit)
  case 0
  then obtain tb where tb: "map_of (data self) step = Some tb" "idx < length (depends tb)"
    "depends tb ! idx = Some d" "unlocated self d"
    by (auto simp: meets_dangling_def dangling_row_def split: option.splits)
  show ?case
  proof (cases limit)
    case 0
    then show ?thesis by simp
  next
    case (Suc l)
    then show ?thesis using get_sequence_unlocated [OF tb] by simp
  qed
next
  case (Suc n)
  from Suc.prems obtain y where nx: "next_row self (step, idx) = Some y"
    and rest: "meets_dangling n self y d"
    by (auto simp: meets_dangling_def split: option.splits)
  obtain step' idx' where y: "y = (step', idx')" by (cases y)
  from nx obtain tb d' where tb: "map_of (data self) step = Some tb" "idx < length (depends tb)"
    "depends tb ! idx = Some d'" "find_step (data self) d' = Some (step', idx')" "step' \<noteq> YNone"
    by (auto simp: next_row_def y split: option.splits if_splits)
  show ?case
  proof (cases limit)
    case 0
    then show ?thesis by simp
  next
    case (Suc l)
    have "get_sequence (Suc l) self step sid idx res
          = get_sequence l self step' d' idx' (res @ [(step, sid)])"
      using tb by (simp add: Let_def)
    then show ?thesis using Suc.IH [OF rest [unfolded y], of l d' "res @ [(step, sid)]"] Suc
      by simp
  qed
qed

lemma mapM_isl: "x \<in> set xs \<Longrightarrow> isl (f x) \<Longrightarrow> isl (mapM f xs)"
  by (induction xs) (auto split: sum.splits)

lemma mapM_first_error:
  "list_all (\<lambda>x. \<not> isl (f x)) xs \<Longrightarrow> f x = Inl e \<Longrightarrow> mapM f (xs @ x # ys) = Inl e"
  by (induction xs) (auto split: sum.splits)

lemma table_chains_isl:
  assumes "map_of (data self) step = Some tb" and "idx < length (step_id tb)"
    and "isl (get_sequence limit self step (step_id tb ! idx) idx [])"
  shows "isl (table_chains limit self step)"
proof -
  let ?f = "\<lambda>(step_idx, sid). case get_sequence limit self step sid step_idx [] of
              Inl e \<Rightarrow> Inl e | Inr tmp \<Rightarrow> Inr (rev tmp)"
  have mem: "(idx, step_id tb ! idx) \<in> set (enumerate 0 (step_id tb))"
    using assms(2) by (simp add: in_set_enumerate_eq)
  have "isl (?f (idx, step_id tb ! idx))" using assms(3) by (auto split: sum.splits)
  from mapM_isl [of _ _ ?f, OF mem this] show ?thesis using assms(1)
    by (simp add: table_chains_def)
qed

lemma write_master_table_isl:
  assumes "map_of (groups self) block = Some steps" and "step \<in> set steps"
    and "isl (table_chains limit self step)"
  shows "isl (write_master_table limit self block)"
proof -
  have "isl (mapM (table_chains limit self) steps)"
    by (rule mapM_isl [where f = "table_chains limit self", OF assms(2,3)])
  then obtain e where "mapM (table_chains limit self) steps = Inl e"
    by (cases "mapM (table_chains limit self) steps") auto
  then have "block_chains limit self block = Inl e"
    using assms(1) by (simp add: block_chains_def)
  then show ?thesis by (simp add: write_master_table_def)
qed

lemma table_chains_first_error:
  assumes tb: "map_of (data self) step = Some tb" and idx: "idx < length (step_id tb)"
    and before: "list_all (\<lambda>p. \<not> isl (get_sequence limit self step (step_id tb ! p) p [])) [0 ..< idx]"
    and err: "get_sequence limit self step (step_id tb ! idx) idx [] = Inl e"
  shows "table_chains limit self step = Inl e"
proof -
  let ?f = "\<lambda>(step_idx, sid). case get_sequence limit self step sid step_idx [] of
              Inl e \<Rightarrow> Inl e | Inr tmp \<Rightarrow> Inr (rev tmp)"
  let ?E = "enumerate 0 (step_id tb)"
  have len: "idx < length ?E" using idx by simp
  have split: "?E = take idx ?E @ ?E ! idx # drop (Suc idx) ?E"
    using len by (rule id_take_nth_drop)
  have at: "?E ! idx = (idx, step_id tb ! idx)" using idx by (simp add: nth_enumerate_eq)
  have pre: "list_all (\<lambda>x. \<not> isl (?f x)) (take idx ?E)"
    unfolding list_all_length
  proof (intro allI impI)
    fix p assume "p < length (take idx ?E)"
    then have p: "p < idx" by simp
    then have "take idx ?E ! p = (p, step_id tb ! p)" using idx by (simp add: nth_enumerate_eq)
    moreover have "\<not> isl (get_sequence limit self step (step_id tb ! p) p [])"
      using before p by (simp add: list_all_iff)
    ultimately show "\<not> isl (?f (take idx ?E ! p))" by (auto split: sum.splits)
  qed
  have "?f (?E ! idx) = Inl e" using err by (simp add: at)
  from mapM_first_error [of ?f, OF pre this, of "drop (Suc idx) ?E"]
  have "mapM ?f ?E = Inl e" using split by simp
  then show ?thesis using tb by (simp add: table_chains_def)
qed

lemma write_master_table_first_error:
  assumes grp: "map_of (groups self) block = Some steps"
    and a: "list_index steps step = Some a"
    and before: "list_all (\<lambda>t. \<not> isl (table_chains limit self t)) (take a steps)"
    and err: "table_chains limit self step = Inl e"
  shows "write_master_table limit self block = Inl e"
proof -
  have a': "a < length steps" "steps ! a = step" using list_index_Some [OF a] by simp_all
  have split: "steps = take a steps @ steps ! a # drop (Suc a) steps"
    using a'(1) by (rule id_take_nth_drop)
  have "table_chains limit self (steps ! a) = Inl e" using err a'(2) by simp
  from mapM_first_error [of "table_chains limit self", OF before this, of "drop (Suc a) steps"]
  have "mapM (table_chains limit self) steps = Inl e" using split by simp
  then show ?thesis using grp by (simp add: write_master_table_def block_chains_def)
qed

lemma get_sequence_data:
  assumes "data s' = data s"
  shows "get_sequence limit s' step sid idx res = get_sequence limit s step sid idx res"
proof (induction limit arbitrary: step sid idx res)
  case 0
  then show ?case by simp
next
  case (Suc limit)
  show ?case
    by (simp only: get_sequence.simps assms Suc.IH)
qed

lemma write_master_table_data:
  assumes "data s' = data s" and "groups s' = groups s"
  shows "write_master_table limit s' block = write_master_table limit s block"
proof -
  have gs: "\<And>step sid idx res.
      get_sequence limit s' step sid idx res = get_sequence limit s step sid idx res"
    by (rule get_sequence_data [OF assms(1)])
  have "table_chains limit s' = table_chains limit s"
    by (rule ext) (simp only: table_chains_def assms(1) gs)
  then show ?thesis
    by (simp only: write_master_table_def block_chains_def assms)
qed

lemma write_masters_data:
  "write_masters limit s bs = Inr s' \<Longrightarrow> data s' = data s \<and> groups s' = groups s"
proof (induction bs arbitrary: s)
  case Nil
  then show ?case by simp
next
  case (Cons b bs)
  then obtain m where "write_master_table limit s b = Inr m"
    and "write_masters limit (s\<lparr>master := AList.update (''master_'' @ b) m (master s)\<rparr>) bs = Inr s'"
    by (auto split: sum.splits)
  from Cons.IH [OF this(2)] show ?case by simp
qed

lemma write_masters_append:
  "write_masters limit s (xs @ ys) =
     (case write_masters limit s xs of Inl e \<Rightarrow> Inl e | Inr s' \<Rightarrow> write_masters limit s' ys)"
  by (induction xs arbitrary: s) (auto split: sum.splits)

lemma write_masters_isl:
  assumes "block \<in> set bs" and "isl (write_master_table limit s block)"
  shows "isl (write_masters limit s bs)"
  using assms
proof (induction bs arbitrary: s)
  case Nil
  then show ?case by simp
next
  case (Cons b bs)
  show ?case
  proof (cases "write_master_table limit s b")
    case (Inl e)
    then show ?thesis by simp
  next
    case (Inr m)
    let ?s = "s\<lparr>master := AList.update (''master_'' @ b) m (master s)\<rparr>"
    have b: "block \<noteq> b" using Inr Cons.prems(2) by auto
    have "write_master_table limit ?s block = write_master_table limit s block"
      by (rule write_master_table_data) simp_all
    then have "isl (write_masters limit ?s bs)"
      using Cons.IH [of ?s] Cons.prems b by simp
    then show ?thesis using Inr by simp
  qed
qed

lemma write_masters_first_error:
  assumes b: "list_index bs block = Some b"
    and before: "\<not> isl (write_masters limit s (take b bs))"
    and err: "write_master_table limit s block = Inl e"
  shows "write_masters limit s bs = Inl e"
proof -
  have b': "b < length bs" "bs ! b = block" using list_index_Some [OF b] by simp_all
  have split: "bs = take b bs @ block # drop (Suc b) bs"
    using id_take_nth_drop [OF b'(1)] b'(2) by simp
  obtain s' where s': "write_masters limit s (take b bs) = Inr s'"
    using before by (cases "write_masters limit s (take b bs)") auto
  have "write_master_table limit s' block = Inl e"
    using write_master_table_data [of s' s limit block] write_masters_data [OF s'] err by simp
  then have "write_masters limit s' (block # drop (Suc b) bs) = Inl e" by simp
  then have "write_masters limit s (take b bs @ block # drop (Suc b) bs) = Inl e"
    by (simp add: write_masters_append s')
  then show ?thesis using split by simp
qed

lemma chain_unresolved:
  assumes meets: "meets_dangling n db (step, idx) d"
  shows "get_sequence limit db step sid idx res
           = Inl (if n < limit then not_found_step d else RecursionError)"
    and "block_row db block (step, idx) \<Longrightarrow> \<exists>e. write_master_table limit db block = Inl e"
    and "block_row db block (step, idx) \<Longrightarrow> n < limit \<Longrightarrow>
         resolved_before limit db block (step, idx) \<Longrightarrow>
         write_master_table limit db block = Inl (not_found_step d)"
proof -
  show run: "get_sequence limit db step sid idx res
           = Inl (if n < limit then not_found_step d else RecursionError)" for sid res
    by (rule get_sequence_meets [OF meets])
  {
    assume "block_row db block (step, idx)"
    then obtain steps tb where grp: "map_of (groups db) block = Some steps"
      and step: "step \<in> set steps" and tb: "map_of (data db) step = Some tb"
      and idx: "idx < length (step_id tb)"
      by (auto simp: block_row_def split: option.splits)
    have "isl (get_sequence limit db step (step_id tb ! idx) idx [])" by (simp add: run)
    from write_master_table_isl [OF grp step table_chains_isl [OF tb idx this]]
    show "\<exists>e. write_master_table limit db block = Inl e"
      by (cases "write_master_table limit db block") auto
  }
  {
    assume n: "n < limit" and "resolved_before limit db block (step, idx)"
      and "block_row db block (step, idx)"
    then obtain steps tb a where grp: "map_of (groups db) block = Some steps"
      and a: "list_index steps step = Some a"
      and tabs: "list_all (\<lambda>t. \<not> isl (table_chains limit db t)) (take a steps)"
      and tb: "map_of (data db) step = Some tb"
      and idx: "idx < length (step_id tb)"
      and rws: "list_all (\<lambda>p. \<not> isl (get_sequence limit db step (step_id tb ! p) p [])) [0 ..< idx]"
      by (auto simp: resolved_before_def block_row_def split: option.splits)
    have "get_sequence limit db step (step_id tb ! idx) idx [] = Inl (not_found_step d)"
      using n by (simp add: run)
    from write_master_table_first_error [OF grp a tabs table_chains_first_error [OF tb idx rws this]]
    show "write_master_table limit db block = Inl (not_found_step d)" .
  }
qed

lemma Build_masters_error:
  assumes "load_parameters files self = Inr db" and "write_masters limit db (last_block db) = Inl e"
  shows "Build limit isfile load_rds files self = Inl e"
  using assms by (simp add: Build_def)

text \<open>
  Claim C1. (1) When the key of an entry refers to an output that no entry returns, the
  build yields no result. (2) When moreover every key has a return id, the entries before
  that one are ingested and the entry's own meta information is in order, the build ends
  with the \<^verbatim>\<open>ResultDBError\<close> that names the output. (3) When chain resolution from a row
  meets, after \<open>n\<close> moves along the dependencies, a row whose dependency \<open>d\<close> cannot be
  located, it never returns a chain: it ends with the \<^verbatim>\<open>ResultDBError\<close> that names \<open>d\<close> when
  it is allowed more than \<open>n\<close> nested calls, and with \<^verbatim>\<open>RecursionError\<close> otherwise. (4) No
  master table is written for a block that has a row with such a chain, and the error is the
  one that names \<open>d\<close> when the chains of the rows visited before that row resolve. (5) A
  build whose ingestion yields this store, with the block among the last blocks, yields no
  result; it ends with the error that names \<open>d\<close> when moreover the master tables of the
  blocks before are written.
\<close>

theorem unresolved_depends_fails:
  "(i < length (entries files) \<longrightarrow> entry_depends (entry_keys files ! i) = Some x \<longrightarrow>
      list_all (\<lambda>k. entry_return k \<noteq> Some x) (entry_keys files) \<longrightarrow>
      (\<exists>e. Build limit isfile load_rds files self = Inl e))
   \<and> (i < length (entries files) \<longrightarrow>
      ingest_loop (entry_keys files) 0 (take i (entries files)) self = Inr s \<longrightarrow>
      collect_meta i (snd (entries files ! i)) s = Inr m \<longrightarrow>
      entry_depends (entry_keys files ! i) = Some x \<longrightarrow>
      list_all (\<lambda>k. entry_return k \<noteq> None \<and> entry_return k \<noteq> Some x) (entry_keys files) \<longrightarrow>
      Build limit isfile load_rds files self = Inl (not_found_output x))
   \<and> (meets_dangling n db (step, idx) d \<longrightarrow>
        get_sequence limit db step sid idx res
          = Inl (if n < limit then not_found_step d else RecursionError)
        \<and> (block_row db block (step, idx) \<longrightarrow>
             (\<exists>e. write_master_table limit db block = Inl e)
             \<and> (n < limit \<longrightarrow> resolved_before limit db block (step, idx) \<longrightarrow>
                  write_master_table limit db block = Inl (not_found_step d))
             \<and> (load_parameters files self = Inr db \<longrightarrow> block \<in> set (last_block db) \<longrightarrow>
                  (\<exists>e. Build limit isfile load_rds files self = Inl e)
                  \<and> (n < limit \<longrightarrow> resolved_before limit db block (step, idx) \<longrightarrow>
                       written_before limit db block \<longrightarrow>
                       Build limit isfile load_rds files self = Inl (not_found_step d)))))"
proof (intro conjI impI)
  assume "i < length (entries files)" "entry_depends (entry_keys files ! i) = Some x"
    "list_all (\<lambda>k. entry_return k \<noteq> Some x) (entry_keys files)"
  from dangling_fails [OF this] obtain e where "load_parameters files self = Inl e" ..
  then show "\<exists>e. Build limit isfile load_rds files self = Inl e" by (simp add: Build_def)
next
  assume "i < length (entries files)"
    "ingest_loop (entry_keys files) 0 (take i (entries files)) self = Inr s"
    "collect_meta i (snd (entries files ! i)) s = Inr m"
    "entry_depends (entry_keys files ! i) = Some x"
    "list_all (\<lambda>k. entry_return k \<noteq> None \<and> entry_return k \<noteq> Some x) (entry_keys files)"
  from dangling_error [OF this]
  show "Build limit isfile load_rds files self = Inl (not_found_output x)"
    by (simp add: Build_def)
next
  assume "meets_dangling n db (step, idx) d"
  then show "get_sequence limit db step sid idx res
          = Inl (if n < limit then not_found_step d else RecursionError)"
    by (rule chain_unresolved(1))
next
  assume "meets_dangling n db (step, idx) d" "block_row db block (step, idx)"
  then show "\<exists>e. write_master_table limit db block = Inl e"
    by (rule chain_unresolved(2))
next
  assume "meets_dangling n db (step, idx) d" "block_row db block (step, idx)" "n < limit"
    "resolved_before limit db block (step, idx)"
  then show "write_master_table limit db block = Inl (not_found_step d)"
    by (rule chain_unresolved(3))
next
  assume meets: "meets_dangling n db (step, idx) d" and row: "block_row db block (step, idx)"
    and lp: "load_parameters files self = Inr db" and blk: "block \<in> set (last_block db)"
  from chain_unresolved(2) [OF meets row, of limit]
  obtain e0 where "write_master_table limit db block = Inl e0" ..
  then have "isl (write_master_table limit db block)" by simp
  from write_masters_isl [OF blk this]
  obtain e where "write_masters limit db (last_block db) = Inl e"
    by (cases "write_masters limit db (last_block db)") auto
  from Build_masters_error [OF lp this]
  show "\<exists>e. Build limit isfile load_rds files self = Inl e" ..
next
  assume meets: "meets_dangling n db (step, idx) d" and row: "block_row db block (step, idx)"
    and lp: "load_parameters files self = Inr db" and n: "n < limit"
    and before: "resolved_before limit db block (step, idx)"
    and written: "written_before limit db block"
  from written obtain b where b: "list_index (last_block db) block = Some b"
    and pre: "\<not> isl (write_masters limit db (take b (last_block db)))"
    by (auto simp: written_before_def split: option.splits)
  have "write_master_table limit db block = Inl (not_found_step d)"
    by (rule chain_unresolved(3) [OF meets row n before])
  from Build_masters_error [OF lp write_masters_first_error [OF b pre this]]
  show "Build limit isfile load_rds files self = Inl (not_found_step d)" .
qed

theorem unresolved_depends_fails_witness:
  "entry_depends (entry_keys dangling_files ! 1) = Some ''99''
   \<and> list_all (\<lambda>k. entry_return k \<noteq> None \<and> entry_return k \<noteq> Some ''99'')
        (entry_keys dangling_files)
   \<and> (\<exists>e. Build 10 (\<lambda>f. False) (\<lambda>f. Inl LoadError) dangling_files (ResultDB ''db'') = Inl e)
   \<and> Build 10 (\<lambda>f. False) (\<lambda>f. Inl LoadError) dangling_files (ResultDB ''db'')
     = Inl (ResultDBError ''Cannot find dependency step for output ``99``!'')
   \<and> meets_dangling 0 dangling_db (YStr ''B'', 0) 99
   \<and> get_sequence 10 dangling_db (YStr ''B'') 2 0 []
     = Inl (ResultDBError ''Cannot find step_id ``99`` in any tables!'')
   \<and> list_all (\<lambda>p. 99 \<notin> set (step_id (snd p))) (data chain_db)
   \<and> meets_dangling 1 chain_db (YStr ''B'', 0) 99
   \<and> block_row chain_db ''estimate'' (YStr ''B'', 0)
   \<and> resolved_before 10 chain_db ''estimate'' (YStr ''B'', 0)
   \<and> written_before 10 chain_db ''estimate''
   \<and> load_parameters [] chain_db = Inr chain_db
   \<and> get_sequence 10 chain_db (YStr ''B'') 2 0 []
     = Inl (ResultDBError ''Cannot find step_id ``99`` in any tables!'')
   \<and> get_sequence 1 chain_db (YStr ''B'') 2 0 [] = Inl RecursionError
   \<and> write_master_table 10 chain_db ''estimate''
     = Inl (ResultDBError ''Cannot find step_id ``99`` in any tables!'')
   \<and> Build 10 (\<lambda>f. False) (\<lambda>f. Inl LoadError) [] chain_db
     = Inl (ResultDBError ''Cannot find step_id ``99`` in any tables!'')
   \<and> load_parameters null_exec_files (ResultDB ''db'') = Inr null_exec_db
   \<and> meets_dangling 0 null_exec_db (YStr ''B'', 0) 1
   \<and> Build 10 (\<lambda>f. False) (\<lambda>f. Inl LoadError) null_exec_files (ResultDB ''db'')
     = Inl (ResultDBError ''Cannot find step_id ``1`` in any tables!'')"
proof -
  let ?s = "projr (ingest_loop (entry_keys dangling_files) 0 (take 1 (entries dangling_files)) (ResultDB ''db''))"
  let ?m = "projr (collect_meta 1 (snd (entries dangling_files ! 1)) ?s)"
  note ing = unresolved_depends_fails [where i = 1 and files = dangling_files and x = "''99''"
      and limit = 10 and isfile = "\<lambda>f. False" and load_rds = "\<lambda>f. Inl LoadError"
      and self = "ResultDB ''db''" and s = ?s and m = ?m]
  note start = unresolved_depends_fails [where n = 0 and db = dangling_db and step = "YStr ''B''"
      and idx = 0 and d = 99 and limit = 10 and sid = 2 and res = "[]"]
  note chain = unresolved_depends_fails [where n = 1 and db = chain_db and step = "YStr ''B''"
      and idx = 0 and d = 99 and limit = 10 and sid = 2 and res = "[]" and block = "''estimate''"
      and files = "[]" and self = chain_db and isfile = "\<lambda>f. False"
      and load_rds = "\<lambda>f. Inl LoadError"]
  note short = unresolved_depends_fails [where n = 1 and db = chain_db and step = "YStr ''B''"
      and idx = 0 and d = 99 and limit = 1 and sid = 2 and res = "[]"]
  note null = unresolved_depends_fails [where n = 0 and db = null_exec_db and step = "YStr ''B''"
      and idx = 0 and d = 1 and limit = 10 and block = "''estimate''"
      and files = null_exec_files and self = "ResultDB ''db''" and isfile = "\<lambda>f. False"
      and load_rds = "\<lambda>f. Inl LoadError"]
  have n1: "meets_dangling 0 null_exec_db (YStr ''B'', 0) 1" by code_simp
  have n2: "block_row null_exec_db ''estimate'' (YStr ''B'', 0)" by code_simp
  have n3: "resolved_before 10 null_exec_db ''estimate'' (YStr ''B'', 0)" by code_simp
  have n4: "written_before 10 null_exec_db ''estimate''" by code_simp
  have n5: "load_parameters null_exec_files (ResultDB ''db'') = Inr null_exec_db" by code_simp
  have n6: "''estimate'' \<in> set (last_block null_exec_db)" by code_simp
  have n7: "(0::nat) < 10" by simp
  have m3: "not_found_step 1 = ResultDBError ''Cannot find step_id ``1`` in any tables!''"
    by code_simp
  from null [THEN conjunct2, THEN conjunct2, rule_format, OF n1, THEN conjunct2, rule_format,
      OF n2, THEN conjunct2, THEN conjunct2, rule_format, OF n5 n6, THEN conjunct2, rule_format,
      OF n7 n3 n4]
  have nb: "Build 10 (\<lambda>f. False) (\<lambda>f. Inl LoadError) null_exec_files (ResultDB ''db'')
     = Inl (ResultDBError ''Cannot find step_id ``1`` in any tables!'')"
    by (simp only: m3)
  have h1: "1 < length (entries dangling_files)" by code_simp
  have h2: "ingest_loop (entry_keys dangling_files) 0 (take 1 (entries dangling_files)) (ResultDB ''db'') = Inr ?s"
    by code_simp
  have h3: "collect_meta 1 (snd (entries dangling_files ! 1)) ?s = Inr ?m" by code_simp
  have h4: "entry_depends (entry_keys dangling_files ! 1) = Some ''99''" by code_simp
  have h5: "list_all (\<lambda>k. entry_return k \<noteq> None \<and> entry_return k \<noteq> Some ''99'') (entry_keys dangling_files)"
    by code_simp
  have h5': "list_all (\<lambda>k. entry_return k \<noteq> Some ''99'') (entry_keys dangling_files)"
    by code_simp
  have g0: "meets_dangling 0 dangling_db (YStr ''B'', 0) 99" by code_simp
  have g1: "meets_dangling 1 chain_db (YStr ''B'', 0) 99" by code_simp
  have g7: "list_all (\<lambda>p. 99 \<notin> set (step_id (snd p))) (data chain_db)" by code_simp
  have g2: "block_row chain_db ''estimate'' (YStr ''B'', 0)" by code_simp
  have g3: "resolved_before 10 chain_db ''estimate'' (YStr ''B'', 0)" by code_simp
  have g4: "written_before 10 chain_db ''estimate''" by code_simp
  have g5: "load_parameters [] chain_db = Inr chain_db" by code_simp
  have g6: "''estimate'' \<in> set (last_block chain_db)" by code_simp
  have lt: "(1::nat) < 10" by simp
  have m1: "not_found_output ''99'' = ResultDBError ''Cannot find dependency step for output ``99``!''"
    by (simp add: not_found_output_def)
  have m2: "not_found_step 99 = ResultDBError ''Cannot find step_id ``99`` in any tables!''"
    by code_simp
  from ing [THEN conjunct1, rule_format, OF h1 h4 h5']
  have z: "\<exists>e. Build 10 (\<lambda>f. False) (\<lambda>f. Inl LoadError) dangling_files (ResultDB ''db'') = Inl e" .
  from ing [THEN conjunct2, THEN conjunct1, rule_format, OF h1 h2 h3 h4 h5]
  have a: "Build 10 (\<lambda>f. False) (\<lambda>f. Inl LoadError) dangling_files (ResultDB ''db'')
     = Inl (ResultDBError ''Cannot find dependency step for output ``99``!'')"
    by (simp only: m1)
  from start [THEN conjunct2, THEN conjunct2, rule_format, OF g0, THEN conjunct1]
  have b0: "get_sequence 10 dangling_db (YStr ''B'') 2 0 []
     = Inl (ResultDBError ''Cannot find step_id ``99`` in any tables!'')"
    by (simp add: m2)
  note c = chain [THEN conjunct2, THEN conjunct2, rule_format, OF g1]
  from c [THEN conjunct1]
  have b1: "get_sequence 10 chain_db (YStr ''B'') 2 0 []
     = Inl (ResultDBError ''Cannot find step_id ``99`` in any tables!'')"
    by (simp add: m2)
  from short [THEN conjunct2, THEN conjunct2, rule_format, OF g1, THEN conjunct1]
  have b2: "get_sequence 1 chain_db (YStr ''B'') 2 0 [] = Inl RecursionError"
    by simp
  note cb = c [THEN conjunct2, rule_format, OF g2]
  from cb [THEN conjunct2, THEN conjunct1, rule_format, OF lt g3]
  have w: "write_master_table 10 chain_db ''estimate''
     = Inl (ResultDBError ''Cannot find step_id ``99`` in any tables!'')"
    by (simp only: m2)
  from cb [THEN conjunct2, THEN conjunct2, rule_format, OF g5 g6, THEN conjunct2, rule_format,
      OF lt g3 g4]
  have bd: "Build 10 (\<lambda>f. False) (\<lambda>f. Inl LoadError) [] chain_db
     = Inl (ResultDBError ''Cannot find step_id ``99`` in any tables!'')"
    by (simp only: m2)
  show ?thesis using h4 h5 z a g0 b0 g7 g1 g2 g3 g4 g5 b1 b2 w bd n5 n1 nb by blast
qed

section \<open>Chain resolution ends in the step it started from\<close>


lemma get_sequence_prefix:
  "get_sequence limit self step sid idx res = Inr tmp \<Longrightarrow> \<exists>rest. tmp = res @ (step, sid) # rest"
proof (induction limit arbitrary: step sid idx res)
  case 0
  then show ?case by simp
next
  case (Suc limit)
  from Suc.prems obtain tb where tb: "map_of (data self) step = Some tb"
    and idx: "idx < length (depends tb)"
    by (auto simp: Let_def split: option.splits if_splits)
  show ?case
  proof (cases "depends tb ! idx")
    case None
    then show ?thesis using Suc.prems tb idx by (auto simp: Let_def)
  next
    case (Some d)
    then obtain step' idx' where
      "get_sequence limit self step' d idx' (res @ [(step, sid)]) = Inr tmp"
      using Suc.prems tb idx
      by (auto simp: Let_def split: option.splits if_splits)
    from Suc.IH [OF this] show ?thesis by auto
  qed
qed

lemma get_sequence_more_fuel:
  "get_sequence limit self step sid idx res = Inr tmp \<Longrightarrow> limit \<le> limit' \<Longrightarrow>
   get_sequence limit' self step sid idx res = Inr tmp"
proof (induction limit arbitrary: limit' step sid idx res)
  case 0
  then show ?case by simp
next
  case (Suc limit)
  then obtain l where l: "limit' = Suc l" "limit \<le> l" by (cases limit') auto
  from Suc.prems(1) obtain tb where tb: "map_of (data self) step = Some tb"
    and idx: "idx < length (depends tb)"
    by (auto simp: Let_def split: option.splits if_splits)
  show ?case
  proof (cases "depends tb ! idx")
    case None
    then show ?thesis using Suc.prems(1) tb idx l by (simp add: Let_def)
  next
    case (Some d)
    then obtain step' idx' where fs: "find_step (data self) d = Some (step', idx')"
      and nn: "step' \<noteq> YNone"
      and rec: "get_sequence limit self step' d idx' (res @ [(step, sid)]) = Inr tmp"
      using Suc.prems(1) tb idx
      by (auto simp: Let_def split: option.splits if_splits)
    from Suc.IH [OF rec l(2)] show ?thesis using tb idx Some fs nn l(1) by (simp add: Let_def)
  qed
qed

lemma get_sequence_deterministic:
  assumes "get_sequence limit1 self step sid idx res = Inr tmp1"
    and "get_sequence limit2 self step sid idx res = Inr tmp2"
  shows "tmp1 = tmp2"
proof -
  have "get_sequence (max limit1 limit2) self step sid idx res = Inr tmp1"
    by (rule get_sequence_more_fuel [OF assms(1)]) simp
  moreover have "get_sequence (max limit1 limit2) self step sid idx res = Inr tmp2"
    by (rule get_sequence_more_fuel [OF assms(2)]) simp
  ultimately show ?thesis by simp
qed

lemma mapM_length: "mapM f xs = Inr ys \<Longrightarrow> length ys = length xs"
  by (induction xs arbitrary: ys) (auto split: sum.splits)

lemma mapM_nth: "mapM f xs = Inr ys \<Longrightarrow> p < length xs \<Longrightarrow> f (xs ! p) = Inr (ys ! p)"
proof (induction xs arbitrary: ys p)
  case Nil
  then show ?case by simp
next
  case (Cons x xs)
  then show ?case by (cases p) (auto split: sum.splits)
qed

lemma table_chains_last:
  assumes "table_chains limit self t = Inr cs" and "map_of (data self) t = Some tb"
  shows "length cs = length (step_id tb)"
    and "p < length cs \<Longrightarrow> cs ! p \<noteq> [] \<and> last (cs ! p) = (t, step_id tb ! p)"
proof -
  let ?f = "\<lambda>(step_idx, sid). case get_sequence limit self t sid step_idx [] of
              Inl e \<Rightarrow> Inl e | Inr tmp \<Rightarrow> Inr (rev tmp)"
  have m: "mapM ?f (enumerate 0 (step_id tb)) = Inr cs"
    using assms by (simp add: table_chains_def)
  show len: "length cs = length (step_id tb)" using mapM_length [OF m] by simp
  assume p: "p < length cs"
  then have "?f (enumerate 0 (step_id tb) ! p) = Inr (cs ! p)"
    using mapM_nth [OF m] len by simp
  then obtain tmp where "get_sequence limit self t (step_id tb ! p) p [] = Inr tmp"
    and c: "cs ! p = rev tmp"
    using p len by (auto simp: nth_enumerate_eq split: sum.splits)
  from get_sequence_prefix [OF this(1)] obtain rest where "tmp = (t, step_id tb ! p) # rest"
    by auto
  then show "cs ! p \<noteq> [] \<and> last (cs ! p) = (t, step_id tb ! p)" using c by simp
qed

text \<open>
  Claim C2. The chain that resolution returns for the step \<open>i\<close> of table \<open>t\<close> ends, once
  reversed, in \<open>(t, i)\<close>; any two runs on the same store that return, whatever recursion
  depth they are allowed, return the same chain; and the reversed chains that lines 135-139
  collect for a table end in the table's step ids, in the order of the \<^verbatim>\<open>step_id\<close> column.
\<close>

theorem get_sequence_deterministic_last:
  "(get_sequence limit self t i idx [] = Inr tmp \<longrightarrow> last (rev tmp) = (t, i))
   \<and> (get_sequence limit self t i idx [] = Inr tmp \<longrightarrow>
        get_sequence limit' self t i idx [] = Inr tmp' \<longrightarrow> tmp' = tmp)
   \<and> (table_chains limit self t = Inr cs \<longrightarrow> map_of (data self) t = Some tb \<longrightarrow>
        map last cs = map (\<lambda>sid. (t, sid)) (step_id tb))"
proof (intro conjI impI)
  assume "get_sequence limit self t i idx [] = Inr tmp"
  from get_sequence_prefix [OF this] show "last (rev tmp) = (t, i)" by auto
next
  assume "get_sequence limit self t i idx [] = Inr tmp"
    "get_sequence limit' self t i idx [] = Inr tmp'"
  then show "tmp' = tmp" by (rule get_sequence_deterministic [symmetric])
next
  assume a: "table_chains limit self t = Inr cs" "map_of (data self) t = Some tb"
  show "map last cs = map (\<lambda>sid. (t, sid)) (step_id tb)"
  proof (rule nth_equalityI)
    show "length (map last cs) = length (map (\<lambda>sid. (t, sid)) (step_id tb))"
      using table_chains_last(1) [OF a] by simp
    fix p assume "p < length (map last cs)"
    then have p: "p < length cs" by simp
    then have "last (cs ! p) = (t, step_id tb ! p)" using table_chains_last(2) [OF a] by simp
    then show "map last cs ! p = map (\<lambda>sid. (t, sid)) (step_id tb) ! p"
      using p table_chains_last(1) [OF a] by simp
  qed
qed

theorem get_sequence_deterministic_last_witness:
  "get_sequence 3 example_db (YStr ''B'') 2 0 [] = Inr [(YStr ''B'', 2), (YStr ''A'', 1)]
   \<and> get_sequence 7 example_db (YStr ''B'') 2 0 [] = Inr [(YStr ''B'', 2), (YStr ''A'', 1)]
   \<and> last (rev [(YStr ''B'', 2 :: nat), (YStr ''A'', 1)]) = (YStr ''B'', 2)
   \<and> table_chains 3 example_db (YStr ''B'') = Inr [[(YStr ''A'', 1), (YStr ''B'', 2)]]
   \<and> map last [[(YStr ''A'', 1 :: nat), (YStr ''B'', 2)]] = map (\<lambda>sid. (YStr ''B'', sid)) [2]"
proof -
  let ?tb = "\<lparr>step_id = [2], return = [''bbb''], depends = [Some 1], attrs = [(''m'', [YInt 3])]\<rparr>"
  let ?tmp = "[(YStr ''B'', 2 :: nat), (YStr ''A'', 1)]"
  have r3: "get_sequence 3 example_db (YStr ''B'') 2 0 [] = Inr ?tmp" by code_simp
  have r7: "get_sequence 7 example_db (YStr ''B'') 2 0 [] = Inr ?tmp" by code_simp
  have tc: "table_chains 3 example_db (YStr ''B'') = Inr [[(YStr ''A'', 1), (YStr ''B'', 2)]]"
    by code_simp
  have look: "map_of (data example_db) (YStr ''B'') = Some ?tb" by code_simp
  note inst = get_sequence_deterministic_last [where limit = 3 and self = example_db
      and t = "YStr ''B''" and i = 2 and idx = 0 and tmp = ?tmp and limit' = 7 and tmp' = ?tmp
      and cs = "[[(YStr ''A'', 1), (YStr ''B'', 2)]]" and tb = ?tb]
  from inst [THEN conjunct1, rule_format, OF r3]
  have a: "last (rev ?tmp) = (YStr ''B'', 2)" .
  from inst [THEN conjunct2, THEN conjunct2, rule_format, OF tc look]
  have b: "map last [[(YStr ''A'', 1 :: nat), (YStr ''B'', 2)]] = map (\<lambda>sid. (YStr ''B'', sid)) [2]"
    by simp
  show ?thesis using r3 r7 a tc b by blast
qed

section \<open>Chain resolution terminates when dependencies decrease\<close>







text \<open>
  The bound on the step ids cannot be dropped: ingestion accepts a key that refers to its
  own output, and resolution of the resulting chain exhausts every recursion depth.
\<close>

lemma cycle_ingested: "load_parameters cycle_files (ResultDB ''db'') = Inr cycle_db"
  by code_simp

lemma cycle_never_returns: "get_sequence limit cycle_db (YStr ''A'') 1 0 res = Inl RecursionError"
proof (induction limit arbitrary: res)
  case 0
  then show ?case by simp
next
  case (Suc limit)
  have "map_of (data cycle_db) (YStr ''A'')
        = Some \<lparr>step_id = [1], return = [''aaa''], depends = [Some 1], attrs = [(''n'', [YInt 100])]\<rparr>"
    by (simp add: cycle_db_def)
  moreover have "find_step (data cycle_db) 1 = Some (YStr ''A'', 0)"
    by (simp add: cycle_db_def)
  ultimately show ?case using Suc.IH by (simp add: Let_def)
qed

section \<open>After ingestion every dependency is a step of some table\<close>

text \<open>
  Ingestion resolves a reference to the position of an entry, and every entry becomes a row.
  So the search of lines 113-118 always finds a table for a dependency that ingestion has
  written; within a build, line 120 is reached only when that table is named \<^verbatim>\<open>None\<close>.
\<close>

lemma find_step_found:
  "(k, tb) \<in> set dat \<Longrightarrow> n \<in> set (step_id tb) \<Longrightarrow> find_step dat n \<noteq> None"
proof (induction dat)
  case Nil
  then show ?case by simp
next
  case (Cons a dat)
  obtain k' tb' where a: "a = (k', tb')" by (cases a)
  show ?case
  proof (cases "list_index (step_id tb') n")
    case None
    then have "n \<notin> set (step_id tb')" by (simp add: list_index_None)
    then show ?thesis using Cons None by (auto simp: a)
  next
    case (Some i)
    then show ?thesis by (simp add: a)
  qed
qed

lemma ingest_loop_all_ingested:
  assumes "ingest_loop ks idx items s = Inr s'"
    and "\<And>i. i < idx \<Longrightarrow> \<exists>t tb. map_of (data s) t = Some tb \<and> i + 1 \<in> set (step_id tb)"
  shows "i < idx + length items \<Longrightarrow> \<exists>t tb. map_of (data s') t = Some tb \<and> i + 1 \<in> set (step_id tb)"
  using assms
proof (induction items arbitrary: idx s)
  case Nil
  then show ?case by simp
next
  case (Cons kv items)
  obtain k v0 where kv: "kv = (k, v0)" by (cases kv)
  obtain s1 where rec: "ingest_record ks idx (k, v0) s = Inr s1"
    and loop: "ingest_loop ks (idx + 1) items s1 = Inr s'"
    using Cons.prems(2) by (auto simp: kv split: sum.splits)
  from ingest_record_cols [OF rec] obtain tbl r dep a where
    ds: "data s1 = AList.update tbl
          \<lparr>step_id = step_id (case map_of (data s) tbl of None \<Rightarrow> new_table (rename_keys v0) | Some tb0 \<Rightarrow> tb0) @ [idx + 1],
           return = return (case map_of (data s) tbl of None \<Rightarrow> new_table (rename_keys v0) | Some tb0 \<Rightarrow> tb0) @ [r],
           depends = depends (case map_of (data s) tbl of None \<Rightarrow> new_table (rename_keys v0) | Some tb0 \<Rightarrow> tb0) @ [dep],
           attrs = a\<rparr> (data s)"
    by blast
  have inv1: "\<exists>t tb. map_of (data s1) t = Some tb \<and> j + 1 \<in> set (step_id tb)"
    if "j < idx + 1" for j
  proof (cases "j < idx")
    case True
    from Cons.prems(3) [OF True] obtain t tb where
      t: "map_of (data s) t = Some tb" "j + 1 \<in> set (step_id tb)" by blast
    show ?thesis
    proof (cases "t = tbl")
      case True
      then show ?thesis using t by (auto simp: ds update_conv')
    next
      case False
      then show ?thesis using t by (auto simp: ds update_conv')
    qed
  next
    case False
    then have "j = idx" using that by simp
    then show ?thesis by (auto simp: ds update_conv')
  qed
  from Cons.IH [OF _ loop inv1] Cons.prems(1) show ?case by simp
qed

lemma load_parameters_depends_found:
  assumes "load_parameters files (ResultDB db_name) = Inr self"
    and "map_of (data self) t = Some tb" and "p < length (depends tb)"
    and "depends tb ! p = Some n"
  shows "find_step (data self) n \<noteq> None"
proof -
  from depends_origin [OF assms] obtain j where
    j: "j < length (entries files)" "n = j + 1" by blast
  have loop: "ingest_loop (entry_keys files) 0 (entries files) (ResultDB db_name) = Inr self"
    using assms(1) by (simp add: load_parameters_entries)
  from ingest_loop_all_ingested [OF loop, of j] j(1)
  obtain t' tb' where "map_of (data self) t' = Some tb'" "j + 1 \<in> set (step_id tb')"
    by auto
  then show ?thesis using find_step_found [of t' tb' "data self" n] j(2)
    by (auto dest: map_of_SomeD)
qed

text \<open>
  A step with a null \<^verbatim>\<open>exec\<close> makes a table named \<^verbatim>\<open>None\<close>, and a dependency on such a step
  cannot be located although the table has it: this is how a build that starts from an
  empty database reaches line 120, as the build of \<open>null_exec_files\<close> does.
\<close>

section \<open>The master table groups the chains by shape\<close>

lemma shape_group_Cons:
  "shape_group (key0 # shapes) (item # rest) key =
     (if key0 = key then [flatten_item item] else []) @ shape_group shapes rest key"
  by (simp add: shape_group_def)

lemma shape_group_notin: "key \<notin> set shapes \<Longrightarrow> shape_group shapes res key = []"
  by (auto simp: shape_group_def filter_empty_conv dest: set_zip_rightD)

lemma keys_update:
  "map fst (AList.update k v al) = (if k \<in> set (map fst al) then map fst al else map fst al @ [k])"
  by (simp add: update_keys)

lemma group_chains_char:
  assumes "mapM (shape_of grps) res = Inr shapes" and "distinct (map fst d)"
  shows "\<exists>d'. group_chains grps res d = Inr d' \<and> distinct (map fst d')
           \<and> map fst d' = insertion_order (map fst d) shapes
           \<and> (\<forall>key. map_of d' key =
                 (case map_of d key of
                    Some (h, rws) \<Rightarrow> Some (h, rws @ shape_group shapes res key)
                  | None \<Rightarrow> if key \<in> set shapes
                            then Some (header_of key, shape_group shapes res key) else None))"
  using assms
proof (induction res arbitrary: d shapes)
  case Nil
  then have "shapes = []" by simp
  then show ?case using Nil
    by (auto simp: insertion_order_def shape_group_def split: option.splits)
next
  case (Cons item rest)
  from Cons.prems(1) obtain key0 shapes' where sh: "shape_of grps item = Inr key0"
    and rest: "mapM (shape_of grps) rest = Inr shapes'" and shapes: "shapes = key0 # shapes'"
    by (auto split: sum.splits)
  define d1 where "d1 = (case map_of d key0 of
       None \<Rightarrow> AList.update key0 (header_of key0, [flatten_item item]) d
     | Some (header, rws) \<Rightarrow> AList.update key0 (header, rws @ [flatten_item item]) d)"
  have step: "group_chains grps (item # rest) d = group_chains grps rest d1"
    using sh by (auto simp: d1_def split: option.splits)
  have dd1: "distinct (map fst d1)"
    using Cons.prems(2) by (auto simp: d1_def distinct_update split: option.splits)
  have keys1: "map fst d1 = (if key0 \<in> set (map fst d) then map fst d else map fst d @ [key0])"
    by (auto simp: d1_def keys_update split: option.splits)
  have look1: "map_of d1 key =
      (if key = key0
       then (case map_of d key0 of
               None \<Rightarrow> Some (header_of key0, [flatten_item item])
             | Some (h, rws) \<Rightarrow> Some (h, rws @ [flatten_item item]))
       else map_of d key)" for key
    by (auto simp: d1_def update_conv' split: option.splits)
  from Cons.IH [OF rest dd1] obtain d' where
    gc: "group_chains grps rest d1 = Inr d'" and dist: "distinct (map fst d')"
    and keys: "map fst d' = insertion_order (map fst d1) shapes'"
    and look: "\<And>key. map_of d' key =
                 (case map_of d1 key of
                    Some (h, rws) \<Rightarrow> Some (h, rws @ shape_group shapes' rest key)
                  | None \<Rightarrow> if key \<in> set shapes'
                            then Some (header_of key, shape_group shapes' rest key) else None)"
    by blast
  have k: "map fst d' = insertion_order (map fst d) shapes"
    using keys keys1 by (simp add: insertion_order_def shapes)
  have l: "map_of d' key =
                 (case map_of d key of
                    Some (h, rws) \<Rightarrow> Some (h, rws @ shape_group shapes (item # rest) key)
                  | None \<Rightarrow> if key \<in> set shapes
                            then Some (header_of key, shape_group shapes (item # rest) key)
                            else None)" for key
    unfolding look [of key] look1 [of key] shapes shape_group_Cons
    by (auto split: option.splits)
  show ?case using step gc dist k l by auto
qed

lemma insertion_order_distinct: "distinct known \<Longrightarrow> distinct (insertion_order known xs)"
  unfolding insertion_order_def by (induction xs arbitrary: known) auto

lemma group_chains_explicit:
  assumes "mapM (shape_of grps) res = Inr shapes"
  shows "group_chains grps res [] =
           Inr (map (\<lambda>key. (key, header_of key, shape_group shapes res key))
                  (insertion_order [] shapes))"
proof -
  from group_chains_char [OF assms, of "[]"] obtain d' where
    gc: "group_chains grps res [] = Inr d'" and dist: "distinct (map fst d')"
    and keys: "map fst d' = insertion_order [] shapes"
    and look: "\<And>key. map_of d' key =
        (if key \<in> set shapes then Some (header_of key, shape_group shapes res key) else None)"
    by auto
  let ?e = "map (\<lambda>key. (key, header_of key, shape_group shapes res key)) (insertion_order [] shapes)"
  have "d' = ?e"
  proof (rule alist_eqI [OF dist])
    show "map fst d' = map fst ?e" by (simp add: keys comp_def)
    show "map_of d' = map_of ?e"
    proof
      fix key
      show "map_of d' key = map_of ?e key"
        by (simp add: look map_of_map_restrict insertion_order_set restrict_map_def)
    qed
  qed
  then show ?thesis using gc by simp
qed

lemma mapM_zip: "mapM f xs = Inr ys \<Longrightarrow> (x, y) \<in> set (zip xs ys) \<Longrightarrow> f x = Inr y"
proof (induction xs arbitrary: ys)
  case Nil
  then show ?case by simp
next
  case (Cons a xs)
  then show ?case by (auto split: sum.splits)
qed

lemma mapM_map: "(\<And>x. x \<in> set xs \<Longrightarrow> f x = Inr (g x)) \<Longrightarrow> mapM f xs = Inr (map g xs)"
  by (induction xs) auto

lemma length_flatten_item: "length (flatten_item item) = 2 * length item"
  by (induction item) (auto simp: flatten_item_def)

lemma length_header_of: "length (header_of key) = 2 * length key"
  by (induction key) (auto simp: header_of_def)

lemma shape_group_row_length:
  assumes "mapM (shape_of grps) res = Inr shapes" and "r \<in> set (shape_group shapes res key)"
  shows "length r = length (header_of key)"
proof -
  from assms(2) obtain c where c: "(c, key) \<in> set (zip res shapes)" and r: "r = flatten_item c"
    by (auto simp: shape_group_def)
  have "shape_of grps c = Inr key" by (rule mapM_zip [OF assms(1) c])
  then have "length key = length c" unfolding shape_of_def by (rule mapM_length)
  then show ?thesis by (simp add: r length_flatten_item length_header_of)
qed

lemma fold_max_const:
  "(\<And>r. r \<in> set rws \<Longrightarrow> length r = n) \<Longrightarrow> rws \<noteq> [] \<Longrightarrow> a \<le> n \<Longrightarrow>
   fold max (map length rws) a = n"
proof (induction rws arbitrary: a)
  case Nil
  then show ?case by simp
next
  case (Cons r rws)
  show ?case
  proof (cases "rws = []")
    case True
    then show ?thesis using Cons.prems by (simp add: max_def)
  next
    case False
    have "fold max (map length rws) (max (length r) a) = n"
      using Cons.prems False by (intro Cons.IH) (auto simp: max_def)
    then show ?thesis by simp
  qed
qed

lemma DataFrame_rectangular:
  assumes "\<And>r. r \<in> set rws \<Longrightarrow> length r = length header"
  shows "DataFrame rws header = Inr \<lparr>columns = header, rows = rws\<rparr>"
proof (cases "rws = []")
  case True
  then show ?thesis by (simp add: DataFrame_def)
next
  case False
  have w: "fold max (map length rws) 0 = length header"
    by (rule fold_max_const [OF assms False]) simp_all
  have "map (\<lambda>r. r @ replicate (length header - length r) YNone) rws = rws"
    using assms by (simp add: map_idI)
  then show ?thesis using False w by (simp add: DataFrame_def Let_def)
qed

lemma filter_zip_index:
  "length xs = length ys \<Longrightarrow>
   map fst (filter (\<lambda>p. snd p = key) (zip xs ys))
   = map (\<lambda>i. xs ! i) (filter (\<lambda>i. ys ! i = key) [0 ..< length xs])"
proof (induction xs arbitrary: ys rule: rev_induct)
  case Nil
  then show ?case by simp
next
  case (snoc x xs)
  then obtain ys' y where ys: "ys = ys' @ [y]" and len: "length xs = length ys'"
    by (cases ys rule: rev_cases) auto
  let ?old = "filter (\<lambda>i. ys' ! i = key) [0 ..< length xs]"
  have a: "filter (\<lambda>i. (ys' @ [y]) ! i = key) [0 ..< length xs] = ?old"
    by (rule filter_cong) (simp_all add: nth_append len)
  have b: "map (\<lambda>i. (xs @ [x]) ! i) ?old = map (\<lambda>i. xs ! i) ?old"
    by (rule map_cong) (simp_all add: nth_append)
  have last: "(ys' @ [y]) ! length xs = y" "(xs @ [x]) ! length xs = x"
    by (simp_all add: nth_append len [symmetric])
  have "map fst (filter (\<lambda>p. snd p = key) (zip (xs @ [x]) (ys' @ [y])))
        = map fst (filter (\<lambda>p. snd p = key) (zip xs ys')) @ (if y = key then [x] else [])"
    using len by simp
  also have "\<dots> = map (\<lambda>i. xs ! i) ?old @ (if y = key then [x] else [])"
    by (simp only: snoc.IH [OF len])
  also have "\<dots> = map (\<lambda>i. (xs @ [x]) ! i) ?old @ (if y = key then [x] else [])"
    by (simp only: b)
  also have "\<dots> = map (\<lambda>i. (xs @ [x]) ! i)
                       (filter (\<lambda>i. (ys' @ [y]) ! i = key) ([0 ..< length xs] @ [length xs]))"
    by (simp only: filter_append map_append a filter.simps last list.map split: if_splits) simp
  finally show ?case by (simp add: ys)
qed

lemma shape_group_chains:
  assumes "length shapes = length res"
  shows "shape_group shapes res key = map flatten_item (chains_of_shape shapes res key)"
proof -
  have "shape_group shapes res key
        = map flatten_item (map fst (filter (\<lambda>p. snd p = key) (zip res shapes)))"
    by (simp add: shape_group_def comp_def)
  then show ?thesis using filter_zip_index [of res shapes key] assms
    by (simp add: chains_of_shape_def)
qed

lemma sum_indicator:
  "distinct ks \<Longrightarrow> a \<in> set ks \<Longrightarrow> sum_list (map (\<lambda>k. if a = k then 1 else 0) ks) = (1::nat)"
  by (induction ks) auto

lemma partition_count:
  assumes "distinct ks" and "snd ` set zs \<subseteq> set ks"
  shows "sum_list (map (\<lambda>k. length (filter (\<lambda>p. snd p = k) zs)) ks) = length zs"
  using assms(2)
proof (induction zs)
  case Nil
  then show ?case by simp
next
  case (Cons z zs)
  have "sum_list (map (\<lambda>k. length (filter (\<lambda>p. snd p = k) (z # zs))) ks)
        = sum_list (map (\<lambda>k. (if snd z = k then 1 else 0) + length (filter (\<lambda>p. snd p = k) zs)) ks)"
    by (intro arg_cong [where f = sum_list] map_cong) auto
  also have "\<dots> = sum_list (map (\<lambda>k. if snd z = k then 1 else 0) ks)
                   + sum_list (map (\<lambda>k. length (filter (\<lambda>p. snd p = k) zs)) ks)"
    by (simp add: sum_list_addf)
  also have "\<dots> = 1 + length zs"
    using Cons sum_indicator [OF assms(1), of "snd z"] by simp
  finally show ?case by simp
qed

lemma shape_groups_count:
  assumes "length shapes = length res"
  shows "sum_list (map (\<lambda>key. length (shape_group shapes res key)) (insertion_order [] shapes))
         = length res"
proof -
  have "snd ` set (zip res shapes) \<subseteq> set (insertion_order [] shapes)"
    by (auto simp: insertion_order_set dest: set_zip_rightD)
  from partition_count [OF insertion_order_distinct this]
  show ?thesis using assms by (simp add: shape_group_def)
qed

lemma write_master_table_explicit:
  assumes "block_chains limit self block = Inr res"
    and "mapM (shape_of (groups self)) res = Inr shapes"
  shows "write_master_table limit self block
         = pd_concat (map (group_frame shapes res) (insertion_order [] shapes))"
proof -
  let ?d = "map (\<lambda>key. (key, header_of key, shape_group shapes res key)) (insertion_order [] shapes)"
  have gc: "group_chains (groups self) res [] = Inr ?d"
    by (rule group_chains_explicit [OF assms(2)])
  have "mapM (\<lambda>(key, header, rws). DataFrame rws header) ?d
        = Inr (map (\<lambda>(key, header, rws). \<lparr>columns = header, rows = rws\<rparr>) ?d)"
  proof (rule mapM_map)
    fix x assume "x \<in> set ?d"
    then obtain key where x: "x = (key, header_of key, shape_group shapes res key)" by auto
    have "DataFrame (shape_group shapes res key) (header_of key)
          = Inr \<lparr>columns = header_of key, rows = shape_group shapes res key\<rparr>"
      by (rule DataFrame_rectangular) (rule shape_group_row_length [OF assms(2)])
    then show "(case x of (key, header, rws) \<Rightarrow> DataFrame rws header)
               = Inr (case x of (key, header, rws) \<Rightarrow> \<lparr>columns = header, rows = rws\<rparr>)"
      by (simp add: x)
  qed
  moreover have "map (\<lambda>(key, header, rws). \<lparr>columns = header, rows = rws\<rparr>) ?d
                 = map (group_frame shapes res) (insertion_order [] shapes)"
    by (simp add: group_frame_def comp_def)
  ultimately have fr: "mapM (\<lambda>(key, header, rws). DataFrame rws header) ?d
        = Inr (map (group_frame shapes res) (insertion_order [] shapes))"
    by (simp only:)
  show ?thesis by (simp add: write_master_table_def assms(1) gc fr)
qed

text \<open>
  Claim C4. Let \<open>res\<close> be the chains resolved for a block and \<open>shapes\<close> their shapes. The
  master table of the block is the column-wise concatenation of one table per shape, the
  shapes taken once each in the order of their first chain. The table of a shape has the
  header \<^verbatim>\<open>[<block>_name, <block>_id]\<close> per block of the shape, and one row per chain of that
  shape, in order, with table name and step id per position. So a chain has its row in the
  table of its own shape and in no other, and the tables have as many rows together as there
  are chains.
\<close>

theorem master_table_partition:
  assumes "block_chains limit self block = Inr res"
    and "mapM (shape_of (groups self)) res = Inr shapes"
  shows "write_master_table limit self block
           = pd_concat (map (group_frame shapes res) (insertion_order [] shapes))
       \<and> distinct (insertion_order [] shapes) \<and> set (insertion_order [] shapes) = set shapes
       \<and> (\<forall>key. columns (group_frame shapes res key) = header_of key
              \<and> rows (group_frame shapes res key)
                  = map flatten_item (chains_of_shape shapes res key))
       \<and> sum_list (map (\<lambda>key. length (rows (group_frame shapes res key)))
                     (insertion_order [] shapes)) = length res"
proof -
  have len: "length shapes = length res" by (rule mapM_length [OF assms(2)])
  show ?thesis
    using write_master_table_explicit [OF assms] shape_group_chains [OF len]
      shape_groups_count [OF len]
    by (simp add: insertion_order_set insertion_order_distinct group_frame_def)
qed

theorem master_table_partition_witness:
  "block_chains 10 shapes_db ''estimate'' = Inr shapes_chains
   \<and> mapM (shape_of (groups shapes_db)) shapes_chains = Inr shapes_shapes
   \<and> insertion_order [] shapes_shapes = shapes_shapes
   \<and> write_master_table 10 shapes_db ''estimate''
       = pd_concat (map (group_frame shapes_shapes shapes_chains) (insertion_order [] shapes_shapes))
   \<and> write_master_table 10 shapes_db ''estimate''
       = Inr \<lparr>columns = [''simulate_name'', ''simulate_id'', ''estimate_name'', ''estimate_id'',
                           ''simulate_name'', ''simulate_id'', ''transform_name'', ''transform_id'',
                           ''estimate_name'', ''estimate_id''],
               rows = [[YStr ''A'', YInt 1, YStr ''B'', YInt 2,
                        YStr ''A'', YInt 1, YStr ''C'', YInt 3, YStr ''B'', YInt 4]]\<rparr>
   \<and> sum_list (map (\<lambda>key. length (rows (group_frame shapes_shapes shapes_chains key)))
                 (insertion_order [] shapes_shapes)) = length shapes_chains"
proof -
  have h1: "block_chains 10 shapes_db ''estimate'' = Inr shapes_chains" by code_simp
  have h2: "mapM (shape_of (groups shapes_db)) shapes_chains = Inr shapes_shapes" by code_simp
  have io: "insertion_order [] shapes_shapes = shapes_shapes" by code_simp
  have ev: "write_master_table 10 shapes_db ''estimate''
       = Inr \<lparr>columns = [''simulate_name'', ''simulate_id'', ''estimate_name'', ''estimate_id'',
                           ''simulate_name'', ''simulate_id'', ''transform_name'', ''transform_id'',
                           ''estimate_name'', ''estimate_id''],
               rows = [[YStr ''A'', YInt 1, YStr ''B'', YInt 2,
                        YStr ''A'', YInt 1, YStr ''C'', YInt 3, YStr ''B'', YInt 4]]\<rparr>"
    by code_simp
  note inst = master_table_partition [OF h1 h2]
  show ?thesis using h1 h2 io ev inst by blast
qed

section \<open>Enrichment without any output file\<close>

lemma enrich_rows_skip:
  assumes "\<not> has_output isfile self (step, idx)" and "output_file self step idx \<noteq> None"
  shows "enrich_rows isfile load_rds self ((step, idx) # rest) dat colnames
         = enrich_rows isfile load_rds self rest dat colnames"
  using assms
  by (auto simp: has_output_def output_file_def Let_def split: option.splits if_splits)

lemma enrich_rows_no_files:
  "enrich_rows (\<lambda>f. False) load_rds self rws dat colnames = Inr (dat', colnames') \<Longrightarrow>
   dat' = dat \<and> colnames' = colnames"
proof (induction rws)
  case Nil
  then show ?case by simp
next
  case (Cons x rws)
  obtain step idx where x: "x = (step, idx)" by (cases x)
  from Cons.prems have "enrich_rows (\<lambda>f. False) load_rds self rws dat colnames = Inr (dat', colnames')"
    by (auto simp: x Let_def split: option.splits if_splits)
  then show ?case by (rule Cons.IH)
qed

lemma cbind_output_no_files: "\<exists>e. cbind_output (\<lambda>f. False) load_rds self block tbl = Inl e"
proof (cases "cbind_output (\<lambda>f. False) load_rds self block tbl")
  case (Inl e)
  then show ?thesis by blast
next
  case (Inr out)
  then obtain steps ids dat cn where
    "enrich_rows (\<lambda>f. False) load_rds self (zip steps ids) [] None = Inr (dat, Some cn)"
    by (auto simp: cbind_output_def split: sum.splits option.splits prod.splits)
  from enrich_rows_no_files [OF this] show ?thesis by simp
qed

lemma enrich_rows_no_outputs:
  "no_outputs isfile self rws \<Longrightarrow>
   enrich_rows isfile load_rds self rws dat colnames = Inr (dat, colnames)"
proof (induction rws)
  case Nil
  then show ?case by simp
next
  case (Cons x rws)
  obtain step idx where x: "x = (step, idx)" by (cases x)
  have "\<not> has_output isfile self (step, idx)" "output_file self step idx \<noteq> None"
    and rest: "no_outputs isfile self rws"
    using Cons.prems by (simp_all add: no_outputs_def x)
  from enrich_rows_skip [OF this(1,2)] Cons.IH [OF rest] show ?case by (simp add: x)
qed

lemma cbind_output_no_outputs:
  assumes "get_column tbl (block @ ''_name'') = Inr steps"
    and "get_column tbl (block @ ''_id'') = Inr ids"
    and "no_outputs isfile self (zip steps ids)"
  shows "cbind_output isfile load_rds self block tbl = Inl TypeError"
  using assms(1,2) enrich_rows_no_outputs [OF assms(3), of load_rds "[]" None]
  by (simp add: cbind_output_def)

text \<open>
  Claim C6. A row without an output file is skipped by the loop (\<open>enrich_rows_skip\<close>
  above), but a table none of whose rows has an output file is not returned. When the steps
  of all rows exist and none has an output file, \<^verbatim>\<open>cbind_output\<close> ends in the \<^verbatim>\<open>TypeError\<close> of
  line 199; when no file exists at all it ends in an exception whatever the table; and so
  do the enrichment of the master table of the two example steps, and their build.
\<close>

theorem cbind_output_without_artifacts_raises:
  "(get_column tbl (block @ ''_name'') = Inr steps \<longrightarrow>
    get_column tbl (block @ ''_id'') = Inr ids \<longrightarrow>
    no_outputs isfile self (zip steps ids) \<longrightarrow>
    cbind_output isfile load_rds self block tbl = Inl TypeError)
   \<and> (\<exists>e. cbind_output (\<lambda>f. False) load_rds self block tbl = Inl e)
   \<and> write_master_table 10 example_db ''estimate'' = Inr example_master
   \<and> cbind_output (\<lambda>f. False) (\<lambda>f. Inl LoadError) example_db ''estimate'' example_master
       = Inl TypeError
   \<and> Build 10 (\<lambda>f. False) (\<lambda>f. Inl LoadError) example_files (ResultDB ''db'') = Inl TypeError"
proof (intro conjI impI)
  assume "get_column tbl (block @ ''_name'') = Inr steps"
    "get_column tbl (block @ ''_id'') = Inr ids" "no_outputs isfile self (zip steps ids)"
  then show "cbind_output isfile load_rds self block tbl = Inl TypeError"
    by (rule cbind_output_no_outputs)
next
  show "\<exists>e. cbind_output (\<lambda>f. False) load_rds self block tbl = Inl e"
    by (rule cbind_output_no_files)
  show "write_master_table 10 example_db ''estimate'' = Inr example_master" by code_simp
  show "cbind_output (\<lambda>f. False) (\<lambda>f. Inl LoadError) example_db ''estimate'' example_master
       = Inl TypeError" by code_simp
  show "Build 10 (\<lambda>f. False) (\<lambda>f. Inl LoadError) example_files (ResultDB ''db'') = Inl TypeError"
    by code_simp
qed

theorem cbind_output_without_artifacts_raises_witness:
  "get_column enrich_master (''estimate'' @ ''_name'') = Inr [YStr ''B'', YStr ''B'']
   \<and> get_column enrich_master (''estimate'' @ ''_id'') = Inr [YInt 2, YInt 3]
   \<and> no_outputs (\<lambda>f. f = ''db/aaa.rds'') enrich_db (zip [YStr ''B'', YStr ''B''] [YInt 2, YInt 3])
   \<and> cbind_output (\<lambda>f. f = ''db/aaa.rds'') enrich_load enrich_db ''estimate'' enrich_master
       = Inl TypeError"
proof -
  have st: "get_column enrich_master (''estimate'' @ ''_name'') = Inr [YStr ''B'', YStr ''B'']"
    by code_simp
  have ids: "get_column enrich_master (''estimate'' @ ''_id'') = Inr [YInt 2, YInt 3]"
    by code_simp
  have no: "no_outputs (\<lambda>f. f = ''db/aaa.rds'') enrich_db (zip [YStr ''B'', YStr ''B''] [YInt 2, YInt 3])"
    by code_simp
  from cbind_output_without_artifacts_raises [THEN conjunct1, rule_format, OF st ids no]
  have "cbind_output (\<lambda>f. f = ''db/aaa.rds'') enrich_load enrich_db ''estimate'' enrich_master
       = Inl TypeError" .
  then show ?thesis using st ids no by blast
qed

section \<open>Enrichment keeps the rows of the master table\<close>

lemma expand_value_length: "length (fst (expand_value k vs)) = length (snd (expand_value k vs))"
  by (simp add: expand_value_def)

lemma output_columns_length: "output_columns rdata = (cs, vs) \<Longrightarrow> length cs = length vs"
proof -
  have gen: "length (concat (map fst xs)) = length (concat (map snd xs))"
    if "\<And>x. x \<in> set xs \<Longrightarrow> length (fst x) = length (snd x)"
    for xs :: "(string list \<times> yval list) list"
    using that by (induction xs) auto
  let ?xs = "map (\<lambda>k. case map_of rdata k of Some vs \<Rightarrow> expand_value k vs | None \<Rightarrow> ([], []))
               (sort (map fst rdata))"
  assume "output_columns rdata = (cs, vs)"
  then have cs: "cs = concat (map fst ?xs)" and vs: "vs = concat (map snd ?xs)"
    by (simp_all add: output_columns_def Let_def)
  have "length (fst x) = length (snd x)" if "x \<in> set ?xs" for x
    using that by (auto simp: expand_value_length split: option.splits)
  from gen [OF this] show ?thesis unfolding cs vs by blast
qed

lemma enrich_rows_result:
  assumes "enrich_rows isfile load_rds self rws dat colnames = Inr (dat', colnames')"
    and "rows_fit dat colnames"
  shows "rows_fit dat' colnames'
       \<and> (\<exists>sub. dat' = dat @ sub \<and> [] \<notin> set sub
             \<and> map hd sub = map snd (filter (has_output isfile self) rws))"
  using assms
proof (induction rws arbitrary: dat colnames)
  case Nil
  then show ?case by simp
next
  case (Cons x rws)
  obtain step idx where x: "x = (step, idx)" by (cases x)
  from Cons.prems(1) obtain f where f: "output_file self step idx = Some f"
    by (auto simp: x output_file_def Let_def split: option.splits if_splits)
  show ?case
  proof (cases "isfile f")
    case False
    then have no: "\<not> has_output isfile self (step, idx)" using f by (simp add: has_output_def)
    have "enrich_rows isfile load_rds self rws dat colnames = Inr (dat', colnames')"
      using Cons.prems(1) enrich_rows_skip [OF no] f by (simp add: x)
    from Cons.IH [OF this Cons.prems(2)] show ?thesis using no by (simp add: x)
  next
    case True
    then have yes: "has_output isfile self (step, idx)" using f by (simp add: has_output_def)
    from Cons.prems(1) f True obtain rdata tmp vals where
      cols: "output_columns rdata = (tmp, vals)"
      and cn: "colnames = None \<or> colnames = Some tmp"
      and rec: "enrich_rows isfile load_rds self rws (dat @ [idx # vals]) (Some tmp)
                = Inr (dat', colnames')"
      by (auto simp: x output_file_def Let_def split: option.splits if_splits sum.splits prod.splits)
    have len: "length vals = length tmp" using output_columns_length [OF cols] by simp
    have fit: "rows_fit (dat @ [idx # vals]) (Some tmp)"
      using Cons.prems(2) cn len by (auto simp: rows_fit_def)
    from Cons.IH [OF rec fit] obtain sub where fit': "rows_fit dat' colnames'"
      and sub: "dat' = (dat @ [idx # vals]) @ sub" "[] \<notin> set sub"
      "map hd sub = map snd (filter (has_output isfile self) rws)"
      by blast
    have "dat' = dat @ ((idx # vals) # sub) \<and> [] \<notin> set ((idx # vals) # sub)
          \<and> map hd ((idx # vals) # sub) = map snd (filter (has_output isfile self) (x # rws))"
      using sub yes by (simp add: x)
    then show ?thesis using fit' by blast
  qed
qed

lemma list_index_count: "list_index xs x = Some j \<Longrightarrow> x \<in> set xs"
  using list_index_None [of xs x] by auto

lemma get_column_unique:
  assumes "count_list (columns tbl) c = 1" and "list_index (columns tbl) c = Some j"
  shows "get_column tbl c = Inr (map (\<lambda>r. cell r j) (rows tbl))"
  using assms by (simp add: get_column_def)

lemma filter_unique:
  assumes "distinct (map f xs)" and "p < length xs"
  shows "filter (\<lambda>x. f x = f (xs ! p)) xs = [xs ! p]"
  using assms
proof (induction xs arbitrary: p)
  case Nil
  then show ?case by simp
next
  case (Cons x xs)
  show ?case
  proof (cases p)
    case 0
    have "f x \<notin> f ` set xs" using Cons.prems(1) by simp
    then have "filter (\<lambda>y. f y = f x) xs = []"
      unfolding filter_empty_conv by (metis imageI)
    then show ?thesis using 0 by simp
  next
    case (Suc q)
    then have q: "q < length xs" using Cons.prems(2) by simp
    have "f x \<noteq> f (xs ! q)" using Cons.prems(1) q by (auto simp: image_iff)
    then show ?thesis using Cons.IH [of q] Cons.prems(1) q Suc by simp
  qed
qed

lemma filter_at_most_one:
  assumes "distinct (map f xs)"
  shows "filter (\<lambda>x. f x = k) xs = [] \<or> (\<exists>r. filter (\<lambda>x. f x = k) xs = [r])"
proof (cases "k \<in> set (map f xs)")
  case False
  then show ?thesis by (auto simp: filter_empty_conv)
next
  case True
  then obtain p where "p < length xs" "f (xs ! p) = k"
    by (auto simp: in_set_conv_nth)
  then show ?thesis using filter_unique [OF assms, of p] by auto
qed

lemma length_concat_singletons:
  "(\<And>k. k \<in> set ks \<Longrightarrow> length (g k) = 1) \<Longrightarrow> length (concat (map g ks)) = length ks"
  by (induction ks) auto

lemma merge_group_one:
  assumes "distinct (map (\<lambda>r. cell r jl) lrows)" and "distinct (map (\<lambda>r. cell r jr) rrows)"
    and "p < length lrows"
  shows "\<exists>ext. merge_group jl jr nl nr lrows rrows (cell (lrows ! p) jl) = [lrows ! p @ ext]
           \<and> (filter (\<lambda>r. cell r jr = cell (lrows ! p) jl) rrows = []
                 \<longrightarrow> ext = replicate (nr - 1) YNone)"
proof -
  let ?k = "cell (lrows ! p) jl"
  have ls: "filter (\<lambda>r. cell r jl = ?k) lrows = [lrows ! p]"
    by (rule filter_unique [OF assms(1,3)])
  from filter_at_most_one [OF assms(2), of ?k]
  show ?thesis
  proof
    assume "filter (\<lambda>r. cell r jr = ?k) rrows = []"
    then show ?thesis using ls by (simp add: merge_group_def Let_def)
  next
    assume "\<exists>r. filter (\<lambda>r. cell r jr = ?k) rrows = [r]"
    then obtain r where "filter (\<lambda>r. cell r jr = ?k) rrows = [r]" ..
    then show ?thesis using ls by (simp add: merge_group_def Let_def)
  qed
qed

lemma pd_merge_Inr:
  assumes "pd_merge left right key = Inr out"
  obtains jl jr where "count_list (columns left) key = 1" "count_list (columns right) key = 1"
    "list_index (columns left) key = Some jl" "list_index (columns right) key = Some jr"
    "rows out = concat (map (merge_group jl jr (length (columns left)) (length (columns right))
                               (rows left) (rows right))
                         (sort_key key_int
                            (remdups (map (\<lambda>r. cell r jl) (rows left)
                                      @ map (\<lambda>r. cell r jr) (rows right)))))"
    "length (columns out) = length (columns left) + (length (columns right) - 1)"
proof -
  have c: "count_list (columns left) key = 1" "count_list (columns right) key = 1"
    using assms by (auto simp: pd_merge_def split: if_splits)
  from assms c obtain jl jr where j: "list_index (columns left) key = Some jl"
    "list_index (columns right) key = Some jr"
    by (auto simp: pd_merge_def split: if_splits option.splits)
  have jr: "jr < length (columns right)" using list_index_Some [OF j(2)] by simp
  have out: "out = \<lparr>columns =
                           map (\<lambda>c. if c \<noteq> key \<and> c \<in> set (drop_nth jr (columns right)) then c @ ''_x'' else c)
                             (columns left)
                           @ map (\<lambda>c. if c \<in> set (columns left) then c @ ''_y'' else c) (drop_nth jr (columns right)),
                         rows =
                           concat (map (merge_group jl jr (length (columns left))
                                          (length (columns right)) (rows left) (rows right))
                            (sort_key key_int
                            (remdups (map (\<lambda>r. cell r jl) (rows left)
                                      @ map (\<lambda>r. cell r jr) (rows right)))))\<rparr>"
    using assms c j by (simp add: pd_merge_def Let_def)
  have "length (drop_nth jr (columns right)) = length (columns right) - 1"
    using jr by (simp add: drop_nth_def)
  then have "length (columns out) = length (columns left) + (length (columns right) - 1)"
    by (simp add: out)
  moreover have "rows out = concat (map (merge_group jl jr (length (columns left)) (length (columns right))
                               (rows left) (rows right))
                         (sort_key key_int
                            (remdups (map (\<lambda>r. cell r jl) (rows left)
                                      @ map (\<lambda>r. cell r jr) (rows right)))))"
    by (simp add: out)
  ultimately show ?thesis using that c j by blast
qed

lemma cbind_output_Inr:
  assumes "cbind_output isfile load_rds self block tbl = Inr out"
  obtains steps ids dat cn right where
    "get_column tbl (block @ ''_name'') = Inr steps"
    "get_column tbl (block @ ''_id'') = Inr ids"
    "enrich_rows isfile load_rds self (zip steps ids) [] None = Inr (dat, Some cn)"
    "DataFrame dat ([block @ ''_id''] @ cn) = Inr right"
    "pd_merge tbl right (block @ ''_id'') = Inr out"
  using assms
  by (auto simp: cbind_output_def split: sum.splits option.splits prod.splits)

lemma cbind_output_rows:
  assumes cb: "cbind_output isfile load_rds self block tbl = Inr out"
    and col: "get_column tbl (block @ ''_id'') = Inr ids" and dist: "distinct ids"
  shows "length (rows out) = length (rows tbl)"
    and "get_column tbl (block @ ''_name'') = Inr steps \<Longrightarrow> p < length steps \<Longrightarrow>
         p < length ids \<Longrightarrow> \<not> has_output isfile self (steps ! p, ids ! p) \<Longrightarrow>
         rows tbl ! p @ replicate (length (columns out) - length (columns tbl)) YNone
           \<in> set (rows out)"
proof -
  let ?idc = "block @ ''_id''"
  from cbind_output_Inr [OF cb] col obtain steps0 dat cn right where
    st: "get_column tbl (block @ ''_name'') = Inr steps0"
    and en: "enrich_rows isfile load_rds self (zip steps0 ids) [] None = Inr (dat, Some cn)"
    and df: "DataFrame dat ([?idc] @ cn) = Inr right"
    and mg: "pd_merge tbl right ?idc = Inr out"
    by (metis sum.inject(2))
  have fit0: "rows_fit [] None" by (simp add: rows_fit_def)
  from enrich_rows_result [OF en fit0] have fit: "rows_fit dat (Some cn)"
    and nonempty: "[] \<notin> set dat"
    and heads: "map hd dat = map snd (filter (has_output isfile self) (zip steps0 ids))"
    by auto
  have "\<And>r. r \<in> set dat \<Longrightarrow> length r = length ([?idc] @ cn)"
    using fit by (simp add: rows_fit_def list_all_iff)
  from DataFrame_rectangular [OF this] df
  have right: "columns right = ?idc # cn" "rows right = dat" by auto
  from pd_merge_Inr [OF mg] obtain jl jr where
    cl: "count_list (columns tbl) ?idc = 1"
    and jl: "list_index (columns tbl) ?idc = Some jl"
    and jr: "list_index (columns right) ?idc = Some jr"
    and ro: "rows out = concat (map (merge_group jl jr (length (columns tbl)) (length (columns right))
                               (rows tbl) (rows right))
                         (sort_key key_int
                            (remdups (map (\<lambda>r. cell r jl) (rows tbl)
                                      @ map (\<lambda>r. cell r jr) (rows right)))))"
    and lc: "length (columns out) = length (columns tbl) + (length (columns right) - 1)"
    by blast
  have jr0: "jr = 0" using jr by (simp add: right)
  have ids: "ids = map (\<lambda>r. cell r jl) (rows tbl)"
    using get_column_unique [OF cl jl] col by simp
  have rk: "map (\<lambda>r. cell r jr) (rows right) = map hd dat"
    unfolding right jr0
  proof (rule map_cong [OF refl])
    fix r assume "r \<in> set dat"
    then have "r \<noteq> []" using nonempty by auto
    then show "cell r 0 = hd r" by (cases r) (simp_all add: cell_def)
  qed
  let ?rkeys = "map snd (filter (has_output isfile self) (zip steps0 ids))"
  have rsub: "set ?rkeys \<subseteq> set ids" by (auto dest: set_zip_rightD)
  have "distinct (map snd (zip steps0 ids))"
    using dist by (simp add: map_snd_zip_take)
  then have rdist: "distinct ?rkeys" by (rule distinct_map_filter)
  let ?ks = "sort_key key_int (remdups (ids @ ?rkeys))"
  let ?g = "merge_group jl jr (length (columns tbl)) (length (columns right)) (rows tbl) (rows right)"
  have ro': "rows out = concat (map ?g ?ks)"
    using ro by (simp add: ids rk heads)
  have setks: "set ?ks = set ids" using rsub by auto
  have "length ?ks = card (set (ids @ ?rkeys))" by (simp add: length_remdups_card_conv)
  also have "\<dots> = card (set ids)" using rsub by (simp add: Un_absorb2)
  also have "\<dots> = length ids" using dist by (rule distinct_card)
  finally have lenks: "length ?ks = length (rows tbl)" by (simp add: ids)
  have dl: "distinct (map (\<lambda>r. cell r jl) (rows tbl))" using dist ids by simp
  have dr: "distinct (map (\<lambda>r. cell r jr) (rows right))" using rdist rk heads by simp
  have one: "length (?g k) = 1" if "k \<in> set ?ks" for k
  proof -
    from that setks obtain q where q: "q < length (rows tbl)" "cell (rows tbl ! q) jl = k"
      by (auto simp: ids in_set_conv_nth)
    from merge_group_one [OF dl dr q(1), of "length (columns tbl)" "length (columns right)"]
    show ?thesis using q(2) by auto
  qed
  show "length (rows out) = length (rows tbl)"
    unfolding ro' using length_concat_singletons [of ?ks ?g, OF one] lenks by simp
  assume st': "get_column tbl (block @ ''_name'') = Inr steps" and p: "p < length steps" "p < length ids"
    and no: "\<not> has_output isfile self (steps ! p, ids ! p)"
  have steps: "steps0 = steps" using st st' by simp
  have pl: "p < length (rows tbl)" using p(2) ids by simp
  let ?k = "cell (rows tbl ! p) jl"
  have k: "?k = ids ! p" using pl by (simp add: ids)
  have "?k \<notin> set ?rkeys"
  proof
    assume "?k \<in> set ?rkeys"
    then obtain x where x: "x \<in> set (zip steps0 ids)" "has_output isfile self x" "snd x = ids ! p"
      using k by auto
    from x(1) obtain q where q: "q < length steps0" "q < length ids" "x = (steps0 ! q, ids ! q)"
      by (auto simp: in_set_zip)
    have "q = p" using x(3) q dist p(2) by (simp add: nth_eq_iff_index_eq)
    then show False using x(2) q(3) no steps by simp
  qed
  moreover have "set (map (\<lambda>r. cell r jr) (rows right)) = set ?rkeys"
    by (simp only: rk heads)
  ultimately have "?k \<notin> (\<lambda>r. cell r jr) ` set (rows right)" by simp
  then have empty: "filter (\<lambda>r. cell r jr = ?k) (rows right) = []"
    unfolding filter_empty_conv by (metis imageI)
  from merge_group_one [OF dl dr pl, of "length (columns tbl)" "length (columns right)"] empty
  have g: "?g ?k = [rows tbl ! p @ replicate (length (columns right) - 1) YNone]" by auto
  have kin: "?k \<in> set ?ks" unfolding setks using k p(2) by simp
  have "rows tbl ! p @ replicate (length (columns right) - 1) YNone \<in> set (?g ?k)"
    by (simp only: g list.set_intros)
  then have "rows tbl ! p @ replicate (length (columns right) - 1) YNone
             \<in> (\<Union>k \<in> set ?ks. set (?g k))"
    using kin by blast
  then have "rows tbl ! p @ replicate (length (columns right) - 1) YNone \<in> set (rows out)"
    unfolding ro' by simp
  then show "rows tbl ! p @ replicate (length (columns out) - length (columns tbl)) YNone
           \<in> set (rows out)"
    using lc by simp
qed

text \<open>
  Claim C5. When enrichment returns a table for a master table whose \<^verbatim>\<open><block>_id\<close> column
  has pairwise distinct values, the result has as many rows as the master table, and every
  row whose step has no output file is in the result with missing values in all the columns
  that enrichment added.
\<close>

theorem cbind_output_preserves_rows:
  assumes "cbind_output isfile load_rds self block tbl = Inr out"
    and "get_column tbl (block @ ''_id'') = Inr ids" and "distinct ids"
  shows "length (rows out) = length (rows tbl)
       \<and> (\<forall>p steps. get_column tbl (block @ ''_name'') = Inr steps \<longrightarrow> p < length steps \<longrightarrow>
             p < length ids \<longrightarrow> \<not> has_output isfile self (steps ! p, ids ! p) \<longrightarrow>
             rows tbl ! p @ replicate (length (columns out) - length (columns tbl)) YNone
               \<in> set (rows out))"
  using cbind_output_rows [OF assms] by blast

theorem cbind_output_preserves_rows_witness:
  "write_master_table 10 enrich_db ''estimate'' = Inr enrich_master
   \<and> cbind_output enrich_isfile enrich_load enrich_db ''estimate'' enrich_master = Inr enrich_out
   \<and> get_column enrich_master (''estimate'' @ ''_id'') = Inr [YInt 2, YInt 3]
   \<and> distinct [YInt 2, YInt 3]
   \<and> length (rows enrich_out) = length (rows enrich_master)
   \<and> get_column enrich_master (''estimate'' @ ''_name'') = Inr [YStr ''B'', YStr ''B'']
   \<and> \<not> has_output enrich_isfile enrich_db (YStr ''B'', YInt 3)
   \<and> [YStr ''A'', YInt 1, YStr ''B'', YInt 3] @ replicate 1 YNone \<in> set (rows enrich_out)"
proof -
  have wm: "write_master_table 10 enrich_db ''estimate'' = Inr enrich_master" by code_simp
  have cb: "cbind_output enrich_isfile enrich_load enrich_db ''estimate'' enrich_master = Inr enrich_out"
    by code_simp
  have ids: "get_column enrich_master (''estimate'' @ ''_id'') = Inr [YInt 2, YInt 3]" by code_simp
  have d: "distinct [YInt 2, YInt 3]" by simp
  have st: "get_column enrich_master (''estimate'' @ ''_name'') = Inr [YStr ''B'', YStr ''B'']"
    by code_simp
  have no: "\<not> has_output enrich_isfile enrich_db ([YStr ''B'', YStr ''B''] ! 1, [YInt 2, YInt 3] ! 1)"
    by code_simp
  have p: "1 < length [YStr ''B'', YStr ''B'']" "1 < length [YInt 2, YInt 3]" by simp_all
  note inst = cbind_output_preserves_rows [OF cb ids d]
  have a: "length (rows enrich_out) = length (rows enrich_master)" using inst by blast
  from inst [THEN conjunct2, rule_format, OF st p no]
  have b: "[YStr ''A'', YInt 1, YStr ''B'', YInt 3] @ replicate 1 YNone \<in> set (rows enrich_out)"
    by (simp add: enrich_master_def enrich_out_def)
  have no': "\<not> has_output enrich_isfile enrich_db (YStr ''B'', YInt 3)" using no by simp
  show ?thesis using wm cb ids d a st no' b by blast
qed

end
